theory Spec2Isabelle
  imports Complex_Main
begin

section \<open>Data model of examples/embedding/embedding.cpp\<close>

text \<open>
  Conventions of the embedding. Token ids are integers. Counts, loop indices, positions
  and sequence ids are never negative in the program (they are produced by loop counters
  starting at zero), so they are natural numbers. A finite \<^verbatim>\<open>float\<close> is the real
  number it stands for, and the result of a float operation of this file is rounded to
  the nearest 32-bit float (\<open>fl32\<close> below). A pointer into a float array is the array
  together with an offset counted in floats. An operation the C program leaves without a
  defined result (an access outside an array, a division by zero, a read of memory that
  was never written) makes the function return a \<open>fault\<close>.
\<close>

type_synonym llama_token = int

datatype fault = OutOfBounds | DivisionByZero | UninitRead

text \<open>One slot of \<^verbatim>\<open>llama_batch\<close>: the arrays \<^verbatim>\<open>token\<close>, \<^verbatim>\<open>pos\<close>,
  \<^verbatim>\<open>seq_id[.][0]\<close> and \<^verbatim>\<open>logits\<close> at one index. A batch is the list of its
  \<^verbatim>\<open>n_tokens\<close> filled slots.\<close>

record slot =
  token :: llama_token
  pos :: nat
  seq_id :: nat
  logits :: bool

type_synonym llama_batch = "slot list"

text \<open>A loop whose body may fault: the first fault ends it.\<close>

primrec for_each :: "('i \<Rightarrow> 's \<Rightarrow> fault + 's) \<Rightarrow> 'i list \<Rightarrow> 's \<Rightarrow> fault + 's" where
  "for_each body [] st = Inr st"
| "for_each body (i # rest) st =
     (case body i st of Inl f \<Rightarrow> Inl f | Inr st' \<Rightarrow> for_each body rest st')"

text \<open>Modelled from the spec: \<^verbatim>\<open>llama_batch_add\<close> is declared in common.h and its
  body is not part of the sources at hand. The spec gives a batch slot the token id, the
  position within the sequence, the sequence id and the is-output-position flag; the
  batch is filled incrementally, the call fills the next free slot; and the batch is a
  bounded container. \<open>n_alloc\<close> is the number of slots that \<^verbatim>\<open>llama_batch_init\<close>
  allocated for the arrays of the batch (line 201: \<open>n_batch\<close>); C keeps it in the
  allocator, so the model passes it along. Filling a slot beyond the allocated ones is a
  write outside the arrays.\<close>

definition llama_batch_add :: "nat \<Rightarrow> llama_batch \<Rightarrow> llama_token \<Rightarrow> nat \<Rightarrow> nat \<Rightarrow> bool \<Rightarrow> fault + llama_batch" where
  "llama_batch_add n_alloc batch tok p sid lg =
     (if length batch < n_alloc
      then Inr (batch @ [\<lparr>token = tok, pos = p, seq_id = sid, logits = lg\<rparr>])
      else Inl OutOfBounds)"

text \<open>Modelled from the spec: \<^verbatim>\<open>llama_batch_clear\<close> (common.h) empties the batch so
  that it is reused for the next group of sequences.\<close>

definition llama_batch_clear :: "llama_batch \<Rightarrow> llama_batch" where
  "llama_batch_clear batch = []"

text \<open>\<^verbatim>\<open>batch_add_seq\<close>, lines 20-24: token \<open>i\<close> gets position \<open>i\<close>, the given
  sequence id, and is marked when \<open>all_tokens\<close> holds or it is the last token.\<close>

definition batch_add_seq :: "nat \<Rightarrow> llama_batch \<Rightarrow> llama_token list \<Rightarrow> nat \<Rightarrow> bool \<Rightarrow> fault + llama_batch" where
  "batch_add_seq n_alloc batch tokens sid all_tokens =
     for_each
       (\<lambda>i b. llama_batch_add n_alloc b (tokens ! i) i sid (all_tokens \<or> i = length tokens - 1))
       [0..<length tokens] batch"

subsection \<open>Arrays of floats\<close>

text \<open>\<open>store buf off vs\<close> is \<^verbatim>\<open>memcpy(buf + off, vs, ...)\<close> and every other write of
  a whole region through a pointer; it faults when the region leaves the array.\<close>

definition store :: "'a list \<Rightarrow> nat \<Rightarrow> 'a list \<Rightarrow> fault + 'a list" where
  "store buf off vs =
     (if off + length vs \<le> length buf
      then Inr (take off buf @ vs @ drop (off + length vs) buf)
      else Inl OutOfBounds)"

text \<open>Reading \<open>n\<close> cells at \<open>off\<close> from a \<^verbatim>\<open>malloc\<close>ed array, whose cells hold
  \<open>None\<close> until they are written.\<close>

definition load :: "'a option list \<Rightarrow> nat \<Rightarrow> nat \<Rightarrow> fault + 'a list" where
  "load buf off n =
     (if off + n \<le> length buf
      then (let cells = take n (drop off buf)
            in if None \<in> set cells then Inl UninitRead else Inr (map the cells))
      else Inl OutOfBounds)"

text \<open>The region of sequence id \<open>k\<close> behind the pointer \<^verbatim>\<open>output\<close>: the \<open>n_embd\<close>
  floats at \<^verbatim>\<open>output + k * n_embd\<close>.\<close>

definition region :: "real list \<Rightarrow> nat \<Rightarrow> nat \<Rightarrow> nat \<Rightarrow> real list" where
  "region emb output n_embd k = take n_embd (drop (output + k * n_embd) emb)"

subsection \<open>32-bit floats\<close>

text \<open>The value of a float operation is the exact result rounded to the nearest 32-bit
  float, ties to the float with an even significand (IEEE 754 binary32: 24 significant
  bits, least exponent \<open>-126\<close>, subnormal numbers below it). \<open>pow2 e\<close> is \<open>2\<close> to the power
  \<open>e\<close>; \<open>float_exponent x\<close> is the exponent of the binade of \<open>x\<close>; the floats of that
  binade are the multiples of \<open>pow2 (float_exponent x - 23)\<close>. A result that rounds beyond
  the largest finite float \<open>float_max\<close> is infinite in the program and has no value here:
  \<open>fl32\<close> rounds it as if the exponents had no upper end, and the properties below that
  depend on the values computed are stated for results that are \<open>in_float_range\<close>.\<close>

definition pow2 :: "int \<Rightarrow> real" where
  "pow2 e = (if 0 \<le> e then 2 ^ nat e else 1 / 2 ^ nat (- e))"

definition round_nearest_even :: "real \<Rightarrow> int" where
  "round_nearest_even q =
     (let f = \<lfloor>q\<rfloor>; d = q - of_int f
      in if d < 1 / 2 then f else if 1 / 2 < d then f + 1 else if even f then f else f + 1)"

definition float_exponent :: "real \<Rightarrow> int" where
  "float_exponent x = max (- 126) \<lfloor>log 2 \<bar>x\<bar>\<rfloor>"

definition fl32 :: "real \<Rightarrow> real" where
  "fl32 x =
     (if x = 0 then 0
      else let ulp = pow2 (float_exponent x - 23)
           in of_int (round_nearest_even (x / ulp)) * ulp)"

definition float_max :: real where
  "float_max = (2 ^ 24 - 1) * pow2 104"

definition in_float_range :: "real \<Rightarrow> bool" where
  "in_float_range x \<longleftrightarrow> \<bar>x\<bar> \<le> float_max"

text \<open>The float sum of a list, accumulated from zero in the order of the list with every
  addition rounded: what the statement \<^verbatim>\<open>out[j] += ...\<close> computes over the tokens.\<close>

definition float_sum :: "real list \<Rightarrow> real" where
  "float_sum xs = foldl (\<lambda>acc x. fl32 (acc + x)) 0 xs"

subsection \<open>Mean pooling\<close>

text \<open>\<^verbatim>\<open>mean_pooling\<close>, lines 26-40. The result is the new content of
  \<^verbatim>\<open>out[0 .. n_embd)\<close>, which the caller stores where the pointer \<^verbatim>\<open>out\<close> points.
  The three loops of the source are the three steps below: zero the output, add every
  token's vector component by component (a float addition), divide every component by
  \<^verbatim>\<open>n_tokens\<close> (the \<^verbatim>\<open>int\<close> is converted to \<^verbatim>\<open>float\<close>, then a float division).\<close>

definition mean_pooling :: "real list \<Rightarrow> nat \<Rightarrow> nat \<Rightarrow> fault + real list" where
  "mean_pooling embd n_tokens n_embd =
     (if length embd < n_tokens * n_embd then Inl OutOfBounds
      else if n_tokens = 0 \<and> 0 < n_embd then Inl DivisionByZero
      else
        let out0 = replicate n_embd 0;
            out1 = fold (\<lambda>i out.
                     fold (\<lambda>j out. out[j := fl32 (out ! j + embd ! (i * n_embd + j))])
                       [0..<n_embd] out)
                   [0..<n_tokens] out0;
            out2 = fold (\<lambda>i out. out[i := fl32 (out ! i / fl32 (real n_tokens))])
                     [0..<n_embd] out1
        in Inr out2)"

subsection \<open>Preprocessing of the prompts\<close>

text \<open>The body of the loop of lines 181-185: append the separator unless the sequence
  already ends with it.\<close>

definition add_sep :: "llama_token \<Rightarrow> llama_token list \<Rightarrow> llama_token list" where
  "add_sep sep inp = (if inp = [] \<or> last inp \<noteq> sep then inp @ [sep] else inp)"

text \<open>\<^verbatim>\<open>split_lines\<close>, lines 10-18: \<^verbatim>\<open>std::getline\<close> in a loop. \<open>line\<close> is the
  line read so far; at the end of the text a line is produced only when characters were
  read for it.\<close>

fun read_lines :: "string \<Rightarrow> string \<Rightarrow> string list" where
  "read_lines line [] = (if line = [] then [] else [line])"
| "read_lines line (c # cs) =
     (if c = CHR 0x0A then line # read_lines [] cs else read_lines (line @ [c]) cs)"

definition split_lines :: "string \<Rightarrow> string list" where
  "split_lines text = read_lines [] text"

text \<open>The loop of lines 169-178: tokenize every prompt; the first prompt with more than
  \<open>n_batch\<close> tokens ends the run (\<open>None\<close>, the \<^verbatim>\<open>return 1\<close> of line 175).\<close>

fun tokenize_prompts :: "(string \<Rightarrow> llama_token list) \<Rightarrow> nat \<Rightarrow> string list \<Rightarrow> llama_token list list option" where
  "tokenize_prompts tokenize n_batch [] = Some []"
| "tokenize_prompts tokenize n_batch (prompt # rest) =
     (let inp = tokenize prompt
      in if length inp > n_batch then None
         else (case tokenize_prompts tokenize n_batch rest of
                 None \<Rightarrow> None
               | Some inputs \<Rightarrow> Some (inp # inputs)))"

subsection \<open>The inference engine\<close>

text \<open>The engine is external. Its interface, as this file uses it, over a type \<open>'c\<close> of
  context states: clearing the cache, decoding a batch (the return code is only logged),
  the two embedding getters (\<open>None\<close> is \<^verbatim>\<open>NULL\<close>), the tokenizer as called at line
  171, the separator token and the embedding size.\<close>

record 'c engine =
  llama_kv_cache_clear :: "'c \<Rightarrow> 'c"
  llama_decode :: "'c \<Rightarrow> llama_batch \<Rightarrow> 'c"
  llama_get_embeddings_seq :: "'c \<Rightarrow> nat \<Rightarrow> real list option"
  llama_get_embeddings_ith :: "'c \<Rightarrow> nat \<Rightarrow> real list option"
  llama_tokenize :: "string \<Rightarrow> llama_token list"
  llama_token_sep :: llama_token
  llama_n_embd :: nat

text \<open>Modelled from the spec: \<^verbatim>\<open>llama_embd_normalize\<close> is declared in common.h and
  its body is not part of the sources at hand. The spec: divide the vector by its
  Euclidean norm; if the norm is zero, leave the vector unchanged. The vector is the
  first \<open>n\<close> floats at \<open>inp\<close>.\<close>

definition llama_embd_normalize :: "real list \<Rightarrow> nat \<Rightarrow> real list" where
  "llama_embd_normalize inp n =
     (let v = take n inp; nrm = sqrt (sum_list (map (\<lambda>x. x * x) v))
      in if nrm = 0 then v else map (\<lambda>x. x / nrm) v)"

subsection \<open>The native-pooling extractor\<close>

text \<open>Lines 58-65: the sequence embedding, else the embedding of position \<open>i\<close>.\<close>

definition fetch_native :: "'c engine \<Rightarrow> 'c \<Rightarrow> llama_batch \<Rightarrow> nat \<Rightarrow> real list option" where
  "fetch_native eng ctx batch i =
     (case llama_get_embeddings_seq eng ctx (seq_id (batch ! i)) of
        None \<Rightarrow> llama_get_embeddings_ith eng ctx i
      | Some embd \<Rightarrow> Some embd)"

text \<open>The body of the loop of lines 52-69, for position \<open>i\<close>. \<open>emb\<close> is the embedding
  buffer and \<open>output\<close> the offset of the pointer \<^verbatim>\<open>output\<close> in it.\<close>

definition batch_decode_body :: "'c engine \<Rightarrow> 'c \<Rightarrow> llama_batch \<Rightarrow> nat \<Rightarrow> nat \<Rightarrow> nat \<Rightarrow> real list \<Rightarrow> fault + real list" where
  "batch_decode_body eng ctx batch output n_embd i emb =
     (if \<not> logits (batch ! i) then Inr emb
      else case fetch_native eng ctx batch i of
             None \<Rightarrow> Inr emb
           | Some embd \<Rightarrow>
               if length embd < n_embd then Inl OutOfBounds
               else store emb (output + seq_id (batch ! i) * n_embd)
                      (llama_embd_normalize embd n_embd))"

text \<open>\<^verbatim>\<open>batch_decode\<close>, lines 42-70.\<close>

definition batch_decode :: "'c engine \<Rightarrow> 'c \<Rightarrow> llama_batch \<Rightarrow> real list \<Rightarrow> nat \<Rightarrow> nat \<Rightarrow> nat \<Rightarrow> 'c \<times> (fault + real list)" where
  "batch_decode eng ctx batch emb output n_seq n_embd =
     (let ctx = llama_decode eng (llama_kv_cache_clear eng ctx) batch
      in (ctx, for_each (batch_decode_body eng ctx batch output n_embd) [0..<length batch] emb))"

subsection \<open>The manual-pooling extractor\<close>

text \<open>The variables of the loop of lines 85-107: the \<^verbatim>\<open>malloc\<close>ed \<^verbatim>\<open>temp_out\<close>,
  the counter \<^verbatim>\<open>token_of_seq\<close> and the embedding buffer.\<close>

type_synonym pool_state = "real option list \<times> nat \<times> real list"

text \<open>Lines 98-100, at a position \<open>i\<close> where a new sequence starts: copy the
  \<^verbatim>\<open>token_of_seq\<close> vectors before position \<open>i\<close> out of \<^verbatim>\<open>temp_out\<close>, pool
  them, and write the mean to the region of the sequence of position \<open>i - 1\<close>. The result
  is the embedding buffer.\<close>

definition pool_previous_seq :: "llama_batch \<Rightarrow> nat \<Rightarrow> nat \<Rightarrow> nat \<Rightarrow> real option list \<Rightarrow> nat \<Rightarrow> real list \<Rightarrow> fault + real list" where
  "pool_previous_seq batch output n_embd i temp_out token_of_seq emb =
     (if i < token_of_seq then Inl OutOfBounds
      else case load temp_out ((i - token_of_seq) * n_embd) (token_of_seq * n_embd) of
        Inl f \<Rightarrow> Inl f
      | Inr seq_tokens \<Rightarrow>
          (case mean_pooling seq_tokens token_of_seq n_embd of
             Inl f \<Rightarrow> Inl f
           | Inr pooled \<Rightarrow> store emb (output + seq_id (batch ! (i - 1)) * n_embd) pooled))"

text \<open>The body of the loop, for position \<open>i\<close>.\<close>

fun manual_pooling_body :: "'c engine \<Rightarrow> 'c \<Rightarrow> llama_batch \<Rightarrow> nat \<Rightarrow> nat \<Rightarrow> nat \<Rightarrow> pool_state \<Rightarrow> fault + pool_state" where
  "manual_pooling_body eng ctx batch output n_embd i (temp_out, token_of_seq, emb) =
     (if \<not> logits (batch ! i) then Inr (temp_out, token_of_seq, emb)
      else case llama_get_embeddings_ith eng ctx i of
        None \<Rightarrow> Inr (temp_out, token_of_seq, emb)
      | Some embd \<Rightarrow>
          (if length embd < n_embd then Inl OutOfBounds
           else case store temp_out (i * n_embd) (map Some (take n_embd embd)) of
             Inl f \<Rightarrow> Inl f
           | Inr temp_out' \<Rightarrow>
               (if i \<noteq> 0 \<and> pos (batch ! i) = 0 then
                  (case pool_previous_seq batch output n_embd i temp_out' token_of_seq emb of
                     Inl f \<Rightarrow> Inl f
                   | Inr emb' \<Rightarrow> Inr (temp_out', 0 + 1, emb'))
                else Inr (temp_out', token_of_seq + 1, emb))))"

text \<open>\<^verbatim>\<open>batch_decode_with_manual_pooling\<close>, lines 72-108. Nothing follows the loop.\<close>

definition batch_decode_with_manual_pooling :: "'c engine \<Rightarrow> 'c \<Rightarrow> llama_batch \<Rightarrow> real list \<Rightarrow> nat \<Rightarrow> nat \<Rightarrow> nat \<Rightarrow> 'c \<times> (fault + real list)" where
  "batch_decode_with_manual_pooling eng ctx batch emb output n_seq n_embd =
     (let ctx = llama_decode eng (llama_kv_cache_clear eng ctx) batch;
          temp_out = replicate (length batch * n_embd) None;
          token_of_seq = 0
      in (ctx, case for_each (manual_pooling_body eng ctx batch output n_embd) [0..<length batch]
                      (temp_out, token_of_seq, emb) of
                 Inl f \<Rightarrow> Inl f
               | Inr (temp_out, token_of_seq, emb) \<Rightarrow> Inr emb))"

subsection \<open>The run\<close>

text \<open>A decode call: which extractor ran, on which batch, with which \<^verbatim>\<open>p\<close> (the
  pointer \<^verbatim>\<open>out\<close> is \<^verbatim>\<open>emb + p * n_embd\<close>) and which \<^verbatim>\<open>s\<close>. The run keeps the
  list of its decode calls, so that properties of the assembly can be stated.\<close>

datatype extractor = Native_Pooling | Manual_Pooling

record decode_call =
  dc_extractor :: extractor
  dc_batch :: llama_batch
  dc_p :: nat
  dc_s :: nat

text \<open>One call of an extractor. A fault of an earlier call stays.\<close>

fun decode_into :: "extractor \<Rightarrow> 'c engine \<Rightarrow> 'c \<Rightarrow> llama_batch \<Rightarrow> fault + real list \<Rightarrow> nat \<Rightarrow> nat \<Rightarrow> nat \<Rightarrow> 'c \<times> (fault + real list)" where
  "decode_into x eng ctx batch (Inl f) output n_seq n_embd = (ctx, Inl f)"
| "decode_into Manual_Pooling eng ctx batch (Inr emb) output n_seq n_embd =
     batch_decode_with_manual_pooling eng ctx batch emb output n_seq n_embd"
| "decode_into Native_Pooling eng ctx batch (Inr emb) output n_seq n_embd =
     batch_decode eng ctx batch emb output n_seq n_embd"

text \<open>The variables of the loop of lines 211-233: the context, the batch, \<^verbatim>\<open>p\<close>,
  \<^verbatim>\<open>s\<close>, the embedding buffer (or the first fault of the run, once an operation had
  no defined result), and the decode calls made so far.\<close>

type_synonym 'c loop_state = "'c \<times> llama_batch \<times> nat \<times> nat \<times> (fault + real list) \<times> decode_call list"

text \<open>Lines 218-228: decode the batch when the next sequence does not fit.\<close>

fun encode_if_at_capacity :: "'c engine \<Rightarrow> bool \<Rightarrow> nat \<Rightarrow> nat \<Rightarrow> nat \<Rightarrow> 'c loop_state \<Rightarrow> 'c loop_state" where
  "encode_if_at_capacity eng manual_pooling n_batch n_embd n_toks (ctx, batch, p, s, emb, calls) =
     (if length batch + n_toks > n_batch then
        (let x = (if manual_pooling then Manual_Pooling else Native_Pooling);
             (ctx', emb') = decode_into x eng ctx batch emb (p * n_embd) s n_embd
         in (ctx', llama_batch_clear batch, p + s, 0, emb',
             calls @ [\<lparr>dc_extractor = x, dc_batch = batch, dc_p = p, dc_s = s\<rparr>]))
      else (ctx, batch, p, s, emb, calls))"

text \<open>Lines 230-232: add the sequence to the batch, whose arrays have \<open>n_batch\<close> slots
  (line 201). When the sequence does not fit, the writes leave the arrays: the run has
  faulted, and the batch of the model keeps the slots it had.\<close>

fun add_to_batch :: "bool \<Rightarrow> nat \<Rightarrow> llama_token list \<Rightarrow> 'c loop_state \<Rightarrow> 'c loop_state" where
  "add_to_batch manual_pooling n_batch inp (ctx, batch, p, s, emb, calls) =
     (case batch_add_seq n_batch batch inp s manual_pooling of
        Inl f \<Rightarrow> (ctx, batch, p, s + 1, (case emb of Inl g \<Rightarrow> Inl g | Inr e \<Rightarrow> Inl f), calls)
      | Inr batch' \<Rightarrow> (ctx, batch', p, s + 1, emb, calls))"

text \<open>The body of the loop of lines 211-233 for the sequence \<open>inp\<close>.\<close>

definition break_into_batches_body :: "'c engine \<Rightarrow> bool \<Rightarrow> nat \<Rightarrow> nat \<Rightarrow> llama_token list \<Rightarrow> 'c loop_state \<Rightarrow> 'c loop_state" where
  "break_into_batches_body eng manual_pooling n_batch n_embd inp st =
     add_to_batch manual_pooling n_batch inp
       (encode_if_at_capacity eng manual_pooling n_batch n_embd (length inp) st)"

text \<open>Lines 235-237: the final batch goes to \<^verbatim>\<open>batch_decode\<close>.\<close>

fun final_batch :: "'c engine \<Rightarrow> nat \<Rightarrow> 'c loop_state \<Rightarrow> 'c loop_state" where
  "final_batch eng n_embd (ctx, batch, p, s, emb, calls) =
     (let (ctx', emb') = decode_into Native_Pooling eng ctx batch emb (p * n_embd) s n_embd
      in (ctx', batch, p, s, emb',
          calls @ [\<lparr>dc_extractor = Native_Pooling, dc_batch = batch, dc_p = p, dc_s = s\<rparr>]))"

text \<open>Lines 199-237: the empty batch, the zeroed embedding buffer, the loop over the
  sequences and the final batch.\<close>

definition break_into_batches :: "'c engine \<Rightarrow> bool \<Rightarrow> nat \<Rightarrow> 'c \<Rightarrow> llama_token list list \<Rightarrow> 'c loop_state" where
  "break_into_batches eng manual_pooling n_batch ctx inputs =
     (let n_prompts = length inputs;
          n_embd = llama_n_embd eng;
          embeddings = replicate (n_prompts * n_embd) 0
      in final_batch eng n_embd
           (fold (break_into_batches_body eng manual_pooling n_batch n_embd) inputs
              (ctx, [], 0, 0, Inr embeddings, [])))"

text \<open>The decode calls of a run, and its embedding buffer.\<close>

fun calls_of :: "'c loop_state \<Rightarrow> decode_call list" where
  "calls_of (ctx, batch, p, s, emb, calls) = calls"

fun emb_of :: "'c loop_state \<Rightarrow> fault + real list" where
  "emb_of (ctx, batch, p, s, emb, calls) = emb"

text \<open>Lines 239-256: what is written to the file (\<open>None\<close>: no file is written) and what
  is printed as the preview (\<open>None\<close>: nothing is printed). \<open>fopen_ok\<close> says whether
  \<^verbatim>\<open>fopen\<close> returns a file.\<close>

definition output_sink :: "string \<Rightarrow> bool \<Rightarrow> real list \<Rightarrow> nat \<Rightarrow> nat \<Rightarrow> real list option \<times> real list list option" where
  "output_sink logits_file fopen_ok emb n_prompts n_embd =
     (if logits_file \<noteq> [] then
        ((if fopen_ok then Some (take (n_prompts * n_embd) emb) else None), None)
      else
        (None, Some (map (\<lambda>j. map (\<lambda>i. emb ! (j * n_embd + i)) [0..<n_embd])
                       [0..<min 3 n_prompts])))"

text \<open>The result of a run: how it ended (the failed \<^verbatim>\<open>GGML_ASSERT\<close>, the value
  returned by \<^verbatim>\<open>main\<close>, or a fault), the token sequences after the preprocessing
  of lines 181-185 (the variable \<^verbatim>\<open>inputs\<close> that the loop of line 211 reads and that
  lines 188-197 print; empty when the run ends before), its decode calls, the embedding
  buffer, the content written to the file and the vectors printed.\<close>

datatype exit_status = Assert_Failed | Return int | Fault fault

record run_result =
  status :: exit_status
  sequences :: "llama_token list list"
  decode_calls :: "decode_call list"
  embeddings :: "real list"
  file_out :: "real list option"
  preview :: "real list list option"

text \<open>\<^verbatim>\<open>main\<close> from line 161 on, with the model loaded. The parameters are the
  fields of \<^verbatim>\<open>params\<close> that are read, the engine and its context, and whether the
  destination file can be opened.\<close>

definition main :: "'c engine \<Rightarrow> 'c \<Rightarrow> string \<Rightarrow> nat \<Rightarrow> nat \<Rightarrow> bool \<Rightarrow> string \<Rightarrow> bool \<Rightarrow> run_result" where
  "main eng ctx prompt n_batch n_ctx manual_pooling logits_file fopen_ok =
     (let prompts = split_lines prompt
      in if n_batch < n_ctx then
           \<lparr>status = Assert_Failed, sequences = [], decode_calls = [], embeddings = [],
            file_out = None, preview = None\<rparr>
         else case tokenize_prompts (llama_tokenize eng) n_batch prompts of
           None \<Rightarrow>
             \<lparr>status = Return 1, sequences = [], decode_calls = [], embeddings = [],
              file_out = None, preview = None\<rparr>
         | Some inputs \<Rightarrow>
             (let inputs = map (add_sep (llama_token_sep eng)) inputs;
                  n_prompts = length prompts;
                  n_embd = llama_n_embd eng;
                  st = break_into_batches eng manual_pooling n_batch ctx inputs
              in case emb_of st of
                   Inl f \<Rightarrow>
                     \<lparr>status = Fault f, sequences = inputs, decode_calls = calls_of st,
                      embeddings = [], file_out = None, preview = None\<rparr>
                 | Inr emb \<Rightarrow>
                     (let (file, shown) = output_sink logits_file fopen_ok emb n_prompts n_embd
                      in \<lparr>status = Return 0, sequences = inputs, decode_calls = calls_of st,
                          embeddings = emb, file_out = file, preview = shown\<rparr>)))"

subsection \<open>The assembly alone\<close>

text \<open>The batch, \<^verbatim>\<open>p\<close>, \<^verbatim>\<open>s\<close> and the decode calls of a loop state, and the
  loop body of lines 211-233 on these alone, for a sequence that fits the arrays of the
  batch: the assembly does not read what the engine returns.\<close>

text \<open>The slots that \<^verbatim>\<open>batch_add_seq\<close> writes for a sequence.\<close>

definition seq_slots :: "llama_token list \<Rightarrow> nat \<Rightarrow> bool \<Rightarrow> llama_batch" where
  "seq_slots tokens sid all_tokens =
     map (\<lambda>i. \<lparr>token = tokens ! i, pos = i, seq_id = sid,
                logits = (all_tokens \<or> i = length tokens - 1)\<rparr>) [0..<length tokens]"

fun assembly_of :: "'c loop_state \<Rightarrow> llama_batch \<times> nat \<times> nat \<times> decode_call list" where
  "assembly_of (ctx, batch, p, s, emb, calls) = (batch, p, s, calls)"

fun assembly_step :: "bool \<Rightarrow> nat \<Rightarrow> llama_token list \<Rightarrow> llama_batch \<times> nat \<times> nat \<times> decode_call list \<Rightarrow> llama_batch \<times> nat \<times> nat \<times> decode_call list" where
  "assembly_step manual_pooling n_batch inp (batch, p, s, calls) =
     (if length batch + length inp > n_batch then
        (seq_slots inp 0 manual_pooling, p + s, 1,
         calls @ [\<lparr>dc_extractor = (if manual_pooling then Manual_Pooling else Native_Pooling),
                   dc_batch = batch, dc_p = p, dc_s = s\<rparr>])
      else (batch @ seq_slots inp s manual_pooling, p, s + 1, calls))"

text \<open>The loop invariant of the assembly after the sequences \<open>seen\<close>: the batch holds
  the tokens of the last \<open>s\<close> sequences and fits the capacity; every decode call so far
  holds the tokens of the \<open>dc_s\<close> sequences from index \<open>dc_p\<close> on, fits the capacity, and
  was made because the next sequence did not fit; the calls follow one another.\<close>

fun assembly_inv :: "nat \<Rightarrow> llama_token list list \<Rightarrow> llama_batch \<times> nat \<times> nat \<times> decode_call list \<Rightarrow> bool" where
  "assembly_inv n_batch seen (batch, p, s, calls) =
     (p + s = length seen \<and> map token batch = concat (drop p seen) \<and> length batch \<le> n_batch
      \<and> sum_list (map dc_s calls) = p
      \<and> (\<forall>c\<in>set calls. length (dc_batch c) \<le> n_batch \<and> dc_p c + dc_s c < length seen
            \<and> map token (dc_batch c) = concat (take (dc_s c) (drop (dc_p c) seen))
            \<and> n_batch < length (dc_batch c) + length (seen ! (dc_p c + dc_s c)))
      \<and> (\<forall>i<length calls. dc_p (calls ! i) = sum_list (map dc_s (take i calls))))"

subsection \<open>An engine for the examples\<close>

text \<open>The context is the batch decoded last. There is no sequence-level pooling; the
  embedding of a position is its token id followed by zero. A token is the code of a
  character, the separator is the full stop, and \<open>n_embd = 2\<close>.\<close>

definition token_engine :: "llama_batch engine" where
  "token_engine =
     \<lparr>llama_kv_cache_clear = (\<lambda>ctx. []),
      llama_decode = (\<lambda>ctx batch. batch),
      llama_get_embeddings_seq = (\<lambda>ctx k. None),
      llama_get_embeddings_ith =
        (\<lambda>ctx i. if i < length ctx then Some [real_of_int (token (ctx ! i)), 0] else None),
      llama_tokenize = map of_char,
      llama_token_sep = 46,
      llama_n_embd = 2\<rparr>"

text \<open>An engine with sequence-level pooling for sequence id 0 only, a per-token embedding
  at position 3 only, and \<open>n_embd = 2\<close>.\<close>

definition pooled_engine :: "unit engine" where
  "pooled_engine =
     \<lparr>llama_kv_cache_clear = (\<lambda>ctx. ctx),
      llama_decode = (\<lambda>ctx batch. ctx),
      llama_get_embeddings_seq = (\<lambda>ctx k. if k = 0 then Some [3, 4] else None),
      llama_get_embeddings_ith = (\<lambda>ctx i. if i = 3 then Some [0, 2] else None),
      llama_tokenize = map of_char,
      llama_token_sep = 46,
      llama_n_embd = 2\<rparr>"

text \<open>Batches as the manual-pooling assembly builds them: one sequence with the tokens 1, 3
  and 5, and the same followed by a second sequence with the tokens 2 and 4.\<close>

definition one_seq_batch :: llama_batch where
  "one_seq_batch =
     [\<lparr>token = 1, pos = 0, seq_id = 0, logits = True\<rparr>,
      \<lparr>token = 3, pos = 1, seq_id = 0, logits = True\<rparr>,
      \<lparr>token = 5, pos = 2, seq_id = 0, logits = True\<rparr>]"

definition two_seq_batch :: llama_batch where
  "two_seq_batch =
     one_seq_batch @
     [\<lparr>token = 2, pos = 0, seq_id = 1, logits = True\<rparr>,
      \<lparr>token = 4, pos = 1, seq_id = 1, logits = True\<rparr>]"

text \<open>A batch as the native assembly builds it, of three sequences with two tokens each:
  the last token of each sequence is marked.\<close>

definition native_batch :: llama_batch where
  "native_batch =
     [\<lparr>token = 7, pos = 0, seq_id = 0, logits = False\<rparr>,
      \<lparr>token = 46, pos = 1, seq_id = 0, logits = True\<rparr>,
      \<lparr>token = 8, pos = 0, seq_id = 1, logits = False\<rparr>,
      \<lparr>token = 46, pos = 1, seq_id = 1, logits = True\<rparr>,
      \<lparr>token = 9, pos = 0, seq_id = 2, logits = False\<rparr>,
      \<lparr>token = 46, pos = 1, seq_id = 2, logits = True\<rparr>]"

text \<open>The run has faulted: its loop state holds a fault in place of the buffer.\<close>

fun faulted :: "'c loop_state \<Rightarrow> bool" where
  "faulted (ctx, batch, p, s, emb, calls) = (\<exists>f. emb = Inl f)"

text \<open>The buffer of a loop state has \<open>n\<close> floats, unless a fault replaced it.\<close>

fun emb_sized :: "nat \<Rightarrow> 'c loop_state \<Rightarrow> bool" where
  "emb_sized n (ctx, batch, p, s, emb, calls) = (case emb of Inl f \<Rightarrow> True | Inr e \<Rightarrow> length e = n)"

section \<open>Properties\<close>

subsection \<open>Loops that update an array in place\<close>

lemma fold_update_upt:
  "n \<le> length xs \<Longrightarrow>
   fold (\<lambda>j out. out[j := g j (out ! j)]) [0..<n] xs = map (\<lambda>j. g j (xs ! j)) [0..<n] @ drop n xs"
proof (induction n)
  case 0
  then show ?case by simp
next
  case (Suc n)
  then have n: "n < length xs" by simp
  have "fold (\<lambda>j out. out[j := g j (out ! j)]) [0..<Suc n] xs
        = (map (\<lambda>j. g j (xs ! j)) [0..<n] @ drop n xs)
            [n := g n ((map (\<lambda>j. g j (xs ! j)) [0..<n] @ drop n xs) ! n)]"
    using Suc by simp
  also have "\<dots> = map (\<lambda>j. g j (xs ! j)) [0..<n] @ (drop n xs)[0 := g n (xs ! n)]"
    using n by (simp add: list_update_append nth_append)
  also have "(drop n xs)[0 := g n (xs ! n)] = g n (xs ! n) # drop (Suc n) xs"
    using n by (simp add: Cons_nth_drop_Suc [symmetric])
  finally show ?case by simp
qed

lemma fold_update_all:
  "length xs = n \<Longrightarrow>
   fold (\<lambda>j out. out[j := g j (out ! j)]) [0..<n] xs = map (\<lambda>j. g j (xs ! j)) [0..<n]"
  using fold_update_upt [of n xs g] by simp

subsection \<open>Loops with faults, and writes into an array\<close>

lemma for_each_append:
  "for_each body (xs @ ys) st =
     (case for_each body xs st of Inl f \<Rightarrow> Inl f | Inr st' \<Rightarrow> for_each body ys st')"
  by (induction xs arbitrary: st) (simp_all split: sum.splits)

lemma for_each_Suc:
  "for_each body [0..<Suc k] st =
     (case for_each body [0..<k] st of Inl f \<Rightarrow> Inl f | Inr st' \<Rightarrow> body k st')"
  by (simp add: for_each_append split: sum.splits)

lemma for_each_invariant:
  assumes "\<And>i st st'. body i st = Inr st' \<Longrightarrow> P st \<Longrightarrow> P st'"
  shows "P st \<Longrightarrow> for_each body xs st = Inr st' \<Longrightarrow> P st'"
proof (induction xs arbitrary: st)
  case Nil
  then show ?case by simp
next
  case (Cons i xs)
  then show ?case using assms by (auto split: sum.splits)
qed

lemma store_length: "store buf off vs = Inr buf' \<Longrightarrow> length buf' = length buf"
  by (auto simp: store_def split: if_splits)

lemma store_ok: "off + length vs \<le> length buf \<Longrightarrow> \<exists>buf'. store buf off vs = Inr buf'"
  by (simp add: store_def)

lemma store_same:
  "store buf off vs = Inr buf' \<Longrightarrow> take (length vs) (drop off buf') = vs"
  by (auto simp: store_def split: if_splits)

lemma store_other:
  assumes "store buf off vs = Inr buf'" and "off2 + n \<le> off \<or> off + length vs \<le> off2"
  shows "take n (drop off2 buf') = take n (drop off2 buf)"
proof -
  from assms(1) have le: "off + length vs \<le> length buf"
    and buf': "buf' = take off buf @ vs @ drop (off + length vs) buf"
    by (auto simp: store_def split: if_splits)
  from assms(2) show ?thesis
  proof
    assume a: "off2 + n \<le> off"
    then have "take n (drop off2 buf') = take n (drop off2 (take off buf))"
      using le by (simp add: buf')
    also have "\<dots> = take n (drop off2 buf)"
      using a by (simp add: drop_take min_def)
    finally show ?thesis .
  next
    assume a: "off + length vs \<le> off2"
    then show ?thesis using le by (simp add: buf' min_def)
  qed
qed

subsection \<open>32-bit floats\<close>

lemma pow2_powr: "pow2 e = 2 powr real_of_int e"
  by (simp add: pow2_def powr_int)

lemma pow2_pos: "0 < pow2 e"
  by (simp add: pow2_powr)

lemma floor_log2_eq:
  assumes "pow2 e \<le> \<bar>x\<bar>" and "\<bar>x\<bar> < pow2 (e + 1)"
  shows "\<lfloor>log 2 \<bar>x\<bar>\<rfloor> = e"
proof -
  have pos: "0 < \<bar>x\<bar>" using assms(1) pow2_pos [of e] by linarith
  show ?thesis
    using assms pos by (simp add: floor_log_eq_powr_iff pow2_powr)
qed

lemma float_exponent_eq:
  assumes "pow2 e \<le> \<bar>x\<bar>" and "\<bar>x\<bar> < pow2 (e + 1)" and "- 126 \<le> e"
  shows "float_exponent x = e"
  using floor_log2_eq [OF assms(1,2)] assms(3) by (simp add: float_exponent_def)

lemma fl32_eval:
  assumes "pow2 e \<le> \<bar>x\<bar>" and "\<bar>x\<bar> < pow2 (e + 1)" and "- 126 \<le> e"
  shows "fl32 x = of_int (round_nearest_even (x / pow2 (e - 23))) * pow2 (e - 23)"
proof -
  have "x \<noteq> 0" using assms(1) pow2_pos [of e] by auto
  then show ?thesis
    by (simp add: fl32_def Let_def float_exponent_eq [OF assms])
qed

lemma round_nearest_even_of_int: "round_nearest_even (of_int n) = n"
  by (simp add: round_nearest_even_def)

lemma fl32_of_int:
  assumes "\<bar>m\<bar> < 2 ^ 24"
  shows "fl32 (of_int m) = of_int m"
proof (cases "m = 0")
  case True
  then show ?thesis by (simp add: fl32_def)
next
  case False
  define x :: real where "x = of_int m"
  define l where "l = \<lfloor>log 2 \<bar>x\<bar>\<rfloor>"
  have "1 \<le> \<bar>m\<bar>" using False by simp
  then have "(1::real) \<le> of_int \<bar>m\<bar>" by (simp only: of_int_1_le_iff)
  then have one: "1 \<le> \<bar>x\<bar>" by (simp add: x_def)
  have "(of_int \<bar>m\<bar> :: real) < of_int (2 ^ 24)"
    using assms by (simp only: of_int_less_iff)
  then have lt: "\<bar>x\<bar> < 2 powr 24" by (simp add: x_def)
  have "0 \<le> log 2 \<bar>x\<bar>" using one by simp
  then have l0: "0 \<le> l" by (simp add: l_def)
  have "log 2 \<bar>x\<bar> < 24"
    using one lt by (subst log_less_iff) simp_all
  then have "l < 24" unfolding l_def by (simp add: floor_less_iff)
  then have l23: "l \<le> 23" by simp
  have e: "float_exponent x = l" using l0 by (simp add: float_exponent_def l_def)
  define k where "k = nat (23 - l)"
  have k: "l - 23 = - int k" using l23 by (simp add: k_def)
  have ulp: "pow2 (l - 23) = 1 / 2 ^ k"
    by (cases "k = 0") (simp_all add: pow2_def k)
  have "x / pow2 (l - 23) = of_int (m * 2 ^ k)"
    by (simp add: ulp x_def)
  then have r: "round_nearest_even (x / pow2 (l - 23)) = m * 2 ^ k"
    by (simp only: round_nearest_even_of_int)
  have xn: "x \<noteq> 0" using False by (simp add: x_def)
  have "fl32 x = of_int (m * 2 ^ k) * pow2 (l - 23)"
    unfolding fl32_def Let_def e r using xn by simp
  also have "\<dots> = x" by (simp add: ulp x_def)
  finally show ?thesis by (simp add: x_def)
qed

lemma fl32_nat: "n < 2 ^ 24 \<Longrightarrow> fl32 (real n) = real n"
  using fl32_of_int [of "int n"] by simp

lemma float_sum_snoc: "float_sum (xs @ [x]) = fl32 (float_sum xs + x)"
  by (simp add: float_sum_def)

text \<open>Where no partial sum is rounded, the float sum is the sum.\<close>

lemma float_sum_exact:
  "\<forall>k\<le>n. fl32 (\<Sum>i<k. f i) = (\<Sum>i<k. f i) \<Longrightarrow> float_sum (map f [0..<n]) = (\<Sum>i<n. f i)"
proof (induction n)
  case 0
  show ?case by (simp add: float_sum_def)
next
  case (Suc n)
  have "float_sum (map f [0..<n]) = (\<Sum>i<n. f i)"
    using Suc.prems by (intro Suc.IH) auto
  moreover have "fl32 (\<Sum>i<Suc n. f i) = (\<Sum>i<Suc n. f i)"
    using Suc.prems by blast
  ultimately show ?case
    by (simp add: float_sum_snoc)
qed

subsection \<open>Mean pooling\<close>

text \<open>The second loop of \<^verbatim>\<open>mean_pooling\<close>, after \<open>k\<close> tokens: component \<open>j\<close> holds
  the float sum of the components \<open>j\<close> of the first \<open>k\<close> vectors.\<close>

lemma mean_pooling_sums:
  "fold (\<lambda>i out. fold (\<lambda>j out. out[j := fl32 (out ! j + embd ! (i * n_embd + j))]) [0..<n_embd] out)
     [0..<k] (replicate n_embd 0)
   = map (\<lambda>j. float_sum (map (\<lambda>i. embd ! (i * n_embd + j)) [0..<k])) [0..<n_embd]"
proof (induction k)
  case 0
  show ?case by (simp add: map_replicate_const float_sum_def)
next
  case (Suc k)
  show ?case
    by (simp add: Suc float_sum_snoc
          fold_update_all [where g = "\<lambda>j x. fl32 (x + embd ! (k * n_embd + j))"])
qed

lemma mean_pooling_eq:
  assumes "1 \<le> n_tokens" and "n_tokens * n_embd \<le> length embd"
  shows "mean_pooling embd n_tokens n_embd =
         Inr (map (\<lambda>j. fl32 (float_sum (map (\<lambda>i. embd ! (i * n_embd + j)) [0..<n_tokens])
                              / fl32 (real n_tokens))) [0..<n_embd])"
  using assms
  by (simp add: mean_pooling_def mean_pooling_sums
        fold_update_all [where g = "\<lambda>j x. fl32 (x / fl32 (real n_tokens))"])

lemma mean_pooling_exact:
  assumes "1 \<le> n_tokens" and "n_tokens * n_embd \<le> length embd"
    and n: "fl32 (real n_tokens) = real n_tokens"
    and sums: "\<forall>j<n_embd.
             (\<forall>k\<le>n_tokens. fl32 (\<Sum>i<k. embd ! (i * n_embd + j)) = (\<Sum>i<k. embd ! (i * n_embd + j)))
             \<and> fl32 ((\<Sum>i<n_tokens. embd ! (i * n_embd + j)) / real n_tokens)
                 = (\<Sum>i<n_tokens. embd ! (i * n_embd + j)) / real n_tokens"
  shows "mean_pooling embd n_tokens n_embd =
         Inr (map (\<lambda>j. (\<Sum>i<n_tokens. embd ! (i * n_embd + j)) / real n_tokens) [0..<n_embd])"
proof -
  have "fl32 (float_sum (map (\<lambda>i. embd ! (i * n_embd + j)) [0..<n_tokens]) / fl32 (real n_tokens))
        = (\<Sum>i<n_tokens. embd ! (i * n_embd + j)) / real n_tokens"
    if "j \<in> set [0..<n_embd]" for j
  proof -
    from that have j: "j < n_embd" by simp
    have "float_sum (map (\<lambda>i. embd ! (i * n_embd + j)) [0..<n_tokens])
            = (\<Sum>i<n_tokens. embd ! (i * n_embd + j))"
      using sums j by (intro float_sum_exact) blast
    then show ?thesis using sums j n by simp
  qed
  then show ?thesis
    unfolding mean_pooling_eq [OF assms(1,2)] by (simp cong: map_cong)
qed

lemma mean_pooling_example: "mean_pooling [1, 0, 3, 0, 5, 0] 3 2 = Inr [3, 0]"
proof -
  have f: "fl32 0 = 0" "fl32 1 = 1" "fl32 3 = 3" "fl32 4 = 4" "fl32 9 = 9"
    using fl32_of_int [of 0] fl32_of_int [of 1] fl32_of_int [of 3] fl32_of_int [of 4]
      fl32_of_int [of 9]
    by simp_all
  show ?thesis
    by (simp add: mean_pooling_eq float_sum_def f upt_rec)
qed

text \<open>
  C5. The claim: for \<open>n_tokens \<ge> 1\<close>, component \<open>j\<close> of the output is the exact arithmetic
  mean of the components \<open>j\<close> of the input vectors. The source adds and divides in
  \<^verbatim>\<open>float\<close>: the three one-component vectors 16777216, 1, 1 give 5592405.5, where
  the mean is 5592406 (the float sum stays at 16777216, and the quotient is rounded).
\<close>

theorem mean_pooling_exact_mean_counterexample:
  "mean_pooling [16777216, 1, 1] 3 1 = Inr [11184811 / 2]
   \<and> mean_pooling [16777216, 1, 1] 3 1 \<noteq> Inr [(16777216 + 1 + 1) / 3]"
proof -
  have f: "fl32 3 = 3"
    using fl32_of_int [of 3] by simp
  have g: "fl32 16777216 = 16777216" "fl32 16777217 = 16777216"
    by (simp_all add: fl32_eval [where e = 24] pow2_def round_nearest_even_def)
  have h: "fl32 (16777216 / 3) = 11184811 / 2"
    by (simp add: fl32_eval [where e = 22] pow2_def round_nearest_even_def)
  have "mean_pooling [16777216, 1, 1] 3 1 = Inr [11184811 / 2]"
    by (simp add: mean_pooling_eq float_sum_def f g h upt_rec)
  then show ?thesis by simp
qed

text \<open>
  C5, as amended. For \<open>n_tokens \<ge> 1\<close> vectors of \<open>n_embd\<close> components each, stored one
  after the other in \<open>embd\<close>, and as long as no float sum and no quotient leaves the range
  of the finite floats, \<^verbatim>\<open>mean_pooling\<close> writes into component \<open>j\<close> of the output the
  float sum of the components \<open>j\<close> of the vectors, accumulated in the order of the tokens
  with every addition rounded to the nearest float, divided by \<open>n_tokens\<close> converted to
  float, the quotient rounded. This is the exact arithmetic mean whenever \<open>n_tokens\<close>,
  every partial sum and the mean itself are floats (nothing is rounded); for the three
  vectors \<open>[1,0]\<close>, \<open>[3,0]\<close>, \<open>[5,0]\<close> the result is \<open>[3,0]\<close>.
\<close>

theorem mean_pooling_rounded_mean:
  assumes "1 \<le> n_tokens" and "n_tokens * n_embd \<le> length embd"
    and "\<forall>j<n_embd. \<forall>k\<le>n_tokens.
           in_float_range (float_sum (map (\<lambda>i. embd ! (i * n_embd + j)) [0..<k]))"
    and "\<forall>j<n_embd.
           in_float_range (fl32 (float_sum (map (\<lambda>i. embd ! (i * n_embd + j)) [0..<n_tokens])
                                 / fl32 (real n_tokens)))"
  shows "mean_pooling embd n_tokens n_embd =
           Inr (map (\<lambda>j. fl32 (float_sum (map (\<lambda>i. embd ! (i * n_embd + j)) [0..<n_tokens])
                                / fl32 (real n_tokens))) [0..<n_embd])
         \<and> (fl32 (real n_tokens) = real n_tokens
             \<and> (\<forall>j<n_embd.
                  (\<forall>k\<le>n_tokens. fl32 (\<Sum>i<k. embd ! (i * n_embd + j))
                                   = (\<Sum>i<k. embd ! (i * n_embd + j)))
                  \<and> fl32 ((\<Sum>i<n_tokens. embd ! (i * n_embd + j)) / real n_tokens)
                      = (\<Sum>i<n_tokens. embd ! (i * n_embd + j)) / real n_tokens)
            \<longrightarrow> mean_pooling embd n_tokens n_embd =
                  Inr (map (\<lambda>j. (\<Sum>i<n_tokens. embd ! (i * n_embd + j)) / real n_tokens)
                         [0..<n_embd]))
         \<and> mean_pooling [1, 0, 3, 0, 5, 0] 3 2 = Inr [3, 0]"
  using mean_pooling_eq [OF assms(1,2)] mean_pooling_exact [OF assms(1,2)] mean_pooling_example
  by blast

theorem mean_pooling_rounded_mean_witness:
  "mean_pooling [2, 4, 6, 8] 2 2 = Inr [4, 6]
   \<and> mean_pooling [1, 1, 2] 3 1 = Inr [11184811 / 8388608]"
proof -
  have f: "fl32 0 = 0" "fl32 1 = 1" "fl32 2 = 2" "fl32 3 = 3" "fl32 4 = 4" "fl32 8 = 8"
      "fl32 12 = 12" "fl32 6 = 6"
    using fl32_of_int [of 0] fl32_of_int [of 1] fl32_of_int [of 2] fl32_of_int [of 3]
      fl32_of_int [of 4] fl32_of_int [of 8] fl32_of_int [of 12] fl32_of_int [of 6]
    by simp_all
  have h: "fl32 (4 / 3) = 11184811 / 8388608"
    by (simp add: fl32_eval [where e = 0] pow2_def round_nearest_even_def)
  have r1: "\<forall>j<2. \<forall>k\<le>2.
           in_float_range (float_sum (map (\<lambda>i. [2, 4, 6, 8 :: real] ! (i * 2 + j)) [0..<k]))"
    by (auto simp: less_Suc_eq le_Suc_eq numeral_2_eq_2 float_sum_def f in_float_range_def
          float_max_def pow2_def)
  have r2: "\<forall>j<2.
           in_float_range (fl32 (float_sum (map (\<lambda>i. [2, 4, 6, 8 :: real] ! (i * 2 + j)) [0..<2])
                                 / fl32 (real 2)))"
    by (auto simp: less_Suc_eq numeral_2_eq_2 float_sum_def f in_float_range_def
          float_max_def pow2_def)
  have r3: "\<forall>j<1. \<forall>k\<le>3.
           in_float_range (float_sum (map (\<lambda>i. [1, 1, 2 :: real] ! (i * 1 + j)) [0..<k]))"
    by (auto simp: le_Suc_eq numeral_3_eq_3 float_sum_def f in_float_range_def
          float_max_def pow2_def)
  have r4: "\<forall>j<1.
           in_float_range (fl32 (float_sum (map (\<lambda>i. [1, 1, 2 :: real] ! (i * 1 + j)) [0..<3])
                                 / fl32 (real 3)))"
    by (simp add: float_sum_def f h upt_rec in_float_range_def float_max_def pow2_def)
  have p1: "(1::nat) \<le> 2" "2 * 2 \<le> length [2, 4, 6, 8 :: real]"
    and p2: "(1::nat) \<le> 3" "3 * 1 \<le> length [1, 1, 2 :: real]"
    by simp_all
  from mean_pooling_rounded_mean [OF p1 r1 r2]
  have a: "mean_pooling [2, 4, 6, 8] 2 2 = Inr [4, 6]"
    by (simp add: float_sum_def f upt_rec)
  from mean_pooling_rounded_mean [OF p2 r3 r4]
  have b: "mean_pooling [1, 1, 2] 3 1 = Inr [11184811 / 8388608]"
    by (simp add: float_sum_def f h upt_rec)
  from a b show ?thesis by blast
qed

subsection \<open>The assembly of batches\<close>

lemma for_each_batch_add:
  "length b + length xs \<le> n \<Longrightarrow>
   for_each (\<lambda>i b. llama_batch_add n b (f i) (g i) sid (h i)) xs b
     = Inr (b @ map (\<lambda>i. \<lparr>token = f i, pos = g i, seq_id = sid, logits = h i\<rparr>) xs)"
  by (induction xs arbitrary: b) (simp_all add: llama_batch_add_def)

lemma for_each_batch_add_overflow:
  "length b \<le> n \<Longrightarrow> n < length b + length xs \<Longrightarrow>
   for_each (\<lambda>i b. llama_batch_add n b (f i) (g i) sid (h i)) xs b = Inl OutOfBounds"
proof (induction xs arbitrary: b)
  case Nil
  then show ?case by simp
next
  case (Cons i xs)
  show ?case
  proof (cases "length b < n")
    case True
    then show ?thesis
      using Cons.prems Cons.IH [of "b @ [\<lparr>token = f i, pos = g i, seq_id = sid, logits = h i\<rparr>]"]
      by (simp add: llama_batch_add_def)
  next
    case False
    then show ?thesis by (simp add: llama_batch_add_def)
  qed
qed

text \<open>A sequence that fits the arrays of the batch is added whole; one that does not fit
  is a write outside them.\<close>

lemma batch_add_seq_eq:
  "length batch + length tokens \<le> n_alloc \<Longrightarrow>
   batch_add_seq n_alloc batch tokens sid all_tokens
     = Inr (batch @ seq_slots tokens sid all_tokens)"
  unfolding batch_add_seq_def seq_slots_def
  by (rule for_each_batch_add) simp

lemma batch_add_seq_overflow:
  "length batch \<le> n_alloc \<Longrightarrow> n_alloc < length batch + length tokens \<Longrightarrow>
   batch_add_seq n_alloc batch tokens sid all_tokens = Inl OutOfBounds"
  unfolding batch_add_seq_def
  by (rule for_each_batch_add_overflow) simp_all

lemma token_seq_slots: "map token (seq_slots tokens sid all_tokens) = tokens"
  by (simp add: seq_slots_def comp_def map_nth)

lemma length_seq_slots: "length (seq_slots tokens sid all_tokens) = length tokens"
  by (simp add: seq_slots_def)

lemma assembly_of_body:
  assumes "length inp \<le> n_batch"
  shows "assembly_of (break_into_batches_body eng manual_pooling n_batch n_embd inp st) =
           assembly_step manual_pooling n_batch inp (assembly_of st)"
proof -
  obtain ctx batch p s emb calls where st: "st = (ctx, batch, p, s, emb, calls)"
    by (cases st) auto
  show ?thesis
  proof (cases "length batch + length inp > n_batch")
    case True
    then show ?thesis
      using assms
      by (simp add: st break_into_batches_body_def llama_batch_clear_def batch_add_seq_eq
            split: prod.splits)
  next
    case False
    then show ?thesis
      by (simp add: st break_into_batches_body_def batch_add_seq_eq)
  qed
qed

lemma assembly_of_fold:
  "\<forall>inp\<in>set inputs. length inp \<le> n_batch \<Longrightarrow>
   assembly_of (fold (break_into_batches_body eng manual_pooling n_batch n_embd) inputs st) =
     fold (assembly_step manual_pooling n_batch) inputs (assembly_of st)"
  by (induction inputs arbitrary: st) (simp_all add: assembly_of_body)

lemma assembly_inv_init: "assembly_inv n_batch [] ([], 0, 0, [])"
  by simp

lemma slice_append:
  "k + n \<le> length xs \<Longrightarrow> take n (drop k (xs @ ys)) = take n (drop k xs)"
  by simp

lemma assembly_inv_step:
  assumes inv: "assembly_inv n_batch seen st" and len: "length inp \<le> n_batch"
  shows "assembly_inv n_batch (seen @ [inp]) (assembly_step manual_pooling n_batch inp st)"
proof -
  obtain batch p s calls where st: "st = (batch, p, s, calls)"
    by (cases st) auto
  from inv st have ps: "p + s = length seen" and tok: "map token batch = concat (drop p seen)"
    and cap: "length batch \<le> n_batch" and sum: "sum_list (map dc_s calls) = p"
    and old: "\<And>c. c \<in> set calls \<Longrightarrow> length (dc_batch c) \<le> n_batch \<and> dc_p c + dc_s c < length seen
            \<and> map token (dc_batch c) = concat (take (dc_s c) (drop (dc_p c) seen))
            \<and> n_batch < length (dc_batch c) + length (seen ! (dc_p c + dc_s c))"
    and chain: "\<And>i. i < length calls \<Longrightarrow> dc_p (calls ! i) = sum_list (map dc_s (take i calls))"
    by auto
  have old': "length (dc_batch c) \<le> n_batch \<and> dc_p c + dc_s c < length (seen @ [inp])
            \<and> map token (dc_batch c) = concat (take (dc_s c) (drop (dc_p c) (seen @ [inp])))
            \<and> n_batch < length (dc_batch c) + length ((seen @ [inp]) ! (dc_p c + dc_s c))"
    if "c \<in> set calls" for c
    using old [OF that] by (simp add: nth_append)
  show ?thesis
  proof (cases "length batch + length inp > n_batch")
    case False
    then show ?thesis
      using st ps tok sum old' chain
      by (simp add: token_seq_slots length_seq_slots)
  next
    case True
    let ?c = "\<lparr>dc_extractor = (if manual_pooling then Manual_Pooling else Native_Pooling),
               dc_batch = batch, dc_p = p, dc_s = s\<rparr>"
    have new: "length (dc_batch ?c) \<le> n_batch \<and> dc_p ?c + dc_s ?c < length (seen @ [inp])
            \<and> map token (dc_batch ?c) = concat (take (dc_s ?c) (drop (dc_p ?c) (seen @ [inp])))
            \<and> n_batch < length (dc_batch ?c) + length ((seen @ [inp]) ! (dc_p ?c + dc_s ?c))"
      using True cap ps tok by (simp add: nth_append)
    have chain': "dc_p ((calls @ [?c]) ! i) = sum_list (map dc_s (take i (calls @ [?c])))"
      if "i < length (calls @ [?c])" for i
    proof (cases "i < length calls")
      case True
      then show ?thesis using chain [OF True] by (simp add: nth_append)
    next
      case False
      with that have "i = length calls" by simp
      then show ?thesis using sum by simp
    qed
    have all: "\<forall>c\<in>set (calls @ [?c]). length (dc_batch c) \<le> n_batch \<and> dc_p c + dc_s c < length (seen @ [inp])
            \<and> map token (dc_batch c) = concat (take (dc_s c) (drop (dc_p c) (seen @ [inp])))
            \<and> n_batch < length (dc_batch c) + length ((seen @ [inp]) ! (dc_p c + dc_s c))"
      using old' new by auto
    have step: "assembly_step manual_pooling n_batch inp st =
            (seq_slots inp 0 manual_pooling, p + s, 1, calls @ [?c])"
      using True st by simp
    have "assembly_inv n_batch (seen @ [inp])
            (seq_slots inp 0 manual_pooling, p + s, 1, calls @ [?c])"
      unfolding assembly_inv.simps
      using ps len sum all chain'
      by (simp add: token_seq_slots length_seq_slots)
    then show ?thesis by (simp only: step)
  qed
qed

lemma assembly_inv_fold:
  "\<forall>inp\<in>set inputs. length inp \<le> n_batch \<Longrightarrow>
   assembly_inv n_batch inputs (fold (assembly_step manual_pooling n_batch) inputs ([], 0, 0, []))"
proof (induction inputs rule: rev_induct)
  case Nil
  show ?case by simp
next
  case (snoc inp inputs)
  then show ?case by (simp add: assembly_inv_step)
qed


lemma slices_concat:
  "\<forall>i<length cs. dc_p (cs ! i) = sum_list (map dc_s (take i cs)) \<Longrightarrow>
   concat (map (\<lambda>c. take (dc_s c) (drop (dc_p c) xs)) cs) = take (sum_list (map dc_s cs)) xs"
proof (induction cs rule: rev_induct)
  case Nil
  show ?case by simp
next
  case (snoc c cs)
  have prefix: "\<forall>i<length cs. dc_p (cs ! i) = sum_list (map dc_s (take i cs))"
  proof (intro allI impI)
    fix i assume i: "i < length cs"
    then have "i < length (cs @ [c])" by simp
    with snoc.prems
    have "dc_p ((cs @ [c]) ! i) = sum_list (map dc_s (take i (cs @ [c])))"
      by blast
    then show "dc_p (cs ! i) = sum_list (map dc_s (take i cs))"
      using i by (simp add: nth_append)
  qed
  have "length cs < length (cs @ [c])" by simp
  with snoc.prems
  have "dc_p ((cs @ [c]) ! length cs) = sum_list (map dc_s (take (length cs) (cs @ [c])))"
    by blast
  then have last: "dc_p c = sum_list (map dc_s cs)" by simp
  show ?case
    using snoc.IH [OF prefix] last by (simp add: take_add)
qed

lemma tokens_concat:
  "\<forall>c\<in>set cs. map token (dc_batch c) = concat (take (dc_s c) (drop (dc_p c) xs)) \<Longrightarrow>
   concat (map (map token \<circ> dc_batch) cs)
     = concat (concat (map (\<lambda>c. take (dc_s c) (drop (dc_p c) xs)) cs))"
  by (induction cs) simp_all

lemma calls_of_final_batch:
  "calls_of (final_batch eng n_embd st) =
     (case assembly_of st of (batch, p, s, calls) \<Rightarrow>
        calls @ [\<lparr>dc_extractor = Native_Pooling, dc_batch = batch, dc_p = p, dc_s = s\<rparr>])"
  by (cases st) (simp split: prod.splits)

lemma calls_of_break_into_batches:
  "\<forall>inp\<in>set inputs. length inp \<le> n_batch \<Longrightarrow>
   calls_of (break_into_batches eng manual_pooling n_batch ctx inputs) =
     (case fold (assembly_step manual_pooling n_batch) inputs ([], 0, 0, []) of
        (batch, p, s, calls) \<Rightarrow>
          calls @ [\<lparr>dc_extractor = Native_Pooling, dc_batch = batch, dc_p = p, dc_s = s\<rparr>])"
  by (simp add: break_into_batches_def Let_def calls_of_final_batch assembly_of_fold)

text \<open>
  C3. When every sequence has at most \<open>n_batch\<close> tokens, the decode calls of the run (the
  calls of the loop and the call for the final batch) satisfy: no batch holds more than
  \<open>n_batch\<close> tokens; the batch of a call holds exactly the tokens of the \<open>dc_s\<close> whole
  sequences from index \<open>dc_p\<close> on, in order; each call starts where the one before ended
  and together they cover all sequences, so that the groups of sequences, one after the
  other, are the input list, and the tokens of the batches, one after the other, are the
  tokens of the input; and every call of the loop was made before adding the sequence
  after its group, because that sequence would have taken the batch over \<open>n_batch\<close>.
\<close>

theorem assembly_partitions_in_order:
  assumes len: "\<forall>inp\<in>set inputs. length inp \<le> n_batch"
  shows "let calls = calls_of (break_into_batches eng manual_pooling n_batch ctx inputs) in
         (\<forall>c\<in>set calls. length (dc_batch c) \<le> n_batch)
       \<and> (\<forall>c\<in>set calls. map token (dc_batch c) = concat (take (dc_s c) (drop (dc_p c) inputs)))
       \<and> (\<forall>i<length calls. dc_p (calls ! i) = sum_list (map dc_s (take i calls)))
       \<and> sum_list (map dc_s calls) = length inputs
       \<and> concat (map (\<lambda>c. take (dc_s c) (drop (dc_p c) inputs)) calls) = inputs
       \<and> concat (map (map token \<circ> dc_batch) calls) = concat inputs
       \<and> (\<forall>c\<in>set (butlast calls). dc_p c + dc_s c < length inputs
             \<and> n_batch < length (dc_batch c) + length (inputs ! (dc_p c + dc_s c)))"
proof -
  obtain batch p s calls
    where fold: "fold (assembly_step manual_pooling n_batch) inputs ([], 0, 0, []) = (batch, p, s, calls)"
    by (cases "fold (assembly_step manual_pooling n_batch) inputs ([], 0, 0, [])") auto
  let ?c = "\<lparr>dc_extractor = Native_Pooling, dc_batch = batch, dc_p = p, dc_s = s\<rparr>"
  have calls: "calls_of (break_into_batches eng manual_pooling n_batch ctx inputs) = calls @ [?c]"
    by (simp add: calls_of_break_into_batches [OF len] fold)
  have inv: "assembly_inv n_batch inputs (batch, p, s, calls)"
    using assembly_inv_fold [OF len, of manual_pooling] by (simp add: fold)
  from inv have ps: "p + s = length inputs" and tok: "map token batch = concat (drop p inputs)"
    and cap: "length batch \<le> n_batch" and sum: "sum_list (map dc_s calls) = p"
    and old: "\<And>c. c \<in> set calls \<Longrightarrow> length (dc_batch c) \<le> n_batch \<and> dc_p c + dc_s c < length inputs
            \<and> map token (dc_batch c) = concat (take (dc_s c) (drop (dc_p c) inputs))
            \<and> n_batch < length (dc_batch c) + length (inputs ! (dc_p c + dc_s c))"
    and chain: "\<And>i. i < length calls \<Longrightarrow> dc_p (calls ! i) = sum_list (map dc_s (take i calls))"
    by auto
  have a: "\<forall>c\<in>set (calls @ [?c]). length (dc_batch c) \<le> n_batch"
    using old cap by auto
  have b: "\<forall>c\<in>set (calls @ [?c]).
             map token (dc_batch c) = concat (take (dc_s c) (drop (dc_p c) inputs))"
    using old tok ps by auto
  have c: "\<forall>i<length (calls @ [?c]).
             dc_p ((calls @ [?c]) ! i) = sum_list (map dc_s (take i (calls @ [?c])))"
  proof (intro allI impI)
    fix i assume i: "i < length (calls @ [?c])"
    show "dc_p ((calls @ [?c]) ! i) = sum_list (map dc_s (take i (calls @ [?c])))"
    proof (cases "i < length calls")
      case True
      then show ?thesis using chain [OF True] by (simp add: nth_append)
    next
      case False
      with i have "i = length calls" by simp
      then show ?thesis using sum by simp
    qed
  qed
  have d: "sum_list (map dc_s (calls @ [?c])) = length inputs"
    using sum ps by simp
  have e: "concat (map (\<lambda>c. take (dc_s c) (drop (dc_p c) inputs)) (calls @ [?c])) = inputs"
    using slices_concat [OF c, of inputs] d by simp
  have f: "concat (map (map token \<circ> dc_batch) (calls @ [?c])) = concat inputs"
    using tokens_concat [OF b] by (simp only: e)
  have g: "\<forall>c\<in>set (butlast (calls @ [?c])). dc_p c + dc_s c < length inputs
             \<and> n_batch < length (dc_batch c) + length (inputs ! (dc_p c + dc_s c))"
    using old by simp
  show ?thesis
    unfolding Let_def calls using a b c d e f g by blast
qed

theorem assembly_partitions_in_order_witness:
  "map (map token \<circ> dc_batch)
     (calls_of (break_into_batches token_engine False 8 [] [[1, 2, 3, 46], [1, 2, 3, 4, 5, 46], [7, 46]]))
   = [[1, 2, 3, 46], [1, 2, 3, 4, 5, 46, 7, 46]]
   \<and> map dc_p (calls_of (break_into_batches token_engine False 8 [] [[1, 2, 3, 46], [1, 2, 3, 4, 5, 46], [7, 46]]))
   = [0, 1]
   \<and> map dc_s (calls_of (break_into_batches token_engine False 8 [] [[1, 2, 3, 46], [1, 2, 3, 4, 5, 46], [7, 46]]))
   = [1, 2]"
  using assembly_partitions_in_order
    [of "[[1, 2, 3, 46], [1, 2, 3, 4, 5, 46], [7, 46]]" 8 token_engine False "[]"]
  by (simp add: calls_of_break_into_batches seq_slots_def upt_rec)

subsection \<open>The native-pooling extractor\<close>

lemma squares_zero_iff:
  "sum_list (map (\<lambda>x. x * x) (v :: real list)) = 0 \<longleftrightarrow> (\<forall>x\<in>set v. x = 0)"
proof -
  have "sum_list (map (\<lambda>x. x * x) v) = 0 \<longleftrightarrow> (\<forall>y\<in>set (map (\<lambda>x. x * x) v). y = 0)"
    by (rule sum_list_nonneg_eq_0_iff) auto
  then show ?thesis by auto
qed

lemma normalize_zero:
  "\<forall>x\<in>set (take n v). x = 0 \<Longrightarrow> llama_embd_normalize v n = take n v"
  by (simp add: llama_embd_normalize_def Let_def squares_zero_iff)

lemma normalize_nonzero:
  assumes "\<not> (\<forall>x\<in>set (take n v). x = 0)"
  shows "llama_embd_normalize v n
           = map (\<lambda>x. x / sqrt (sum_list (map (\<lambda>x. x * x) (take n v)))) (take n v)"
    and "sqrt (sum_list (map (\<lambda>y. y * y) (llama_embd_normalize v n))) = 1"
proof -
  let ?q = "sum_list (map (\<lambda>x. x * x) (take n v))"
  have nz: "sqrt ?q \<noteq> 0" using assms by (simp add: squares_zero_iff)
  have q: "0 \<le> ?q" by (rule sum_list_nonneg) auto
  with nz have qpos: "0 < ?q" by (cases "?q = 0") auto
  show eq: "llama_embd_normalize v n = map (\<lambda>x. x / sqrt ?q) (take n v)"
    using nz by (simp add: llama_embd_normalize_def Let_def)
  have "sum_list (map (\<lambda>y. y * y) (map (\<lambda>x. x / sqrt ?q) (take n v)))
        = sum_list (map (\<lambda>x. (x * x) * (1 / ?q)) (take n v))"
    using q by (simp add: comp_def)
  also have "\<dots> = ?q * (1 / ?q)"
    by (simp only: sum_list_mult_const)
  also have "\<dots> = 1" using qpos by simp
  finally show "sqrt (sum_list (map (\<lambda>y. y * y) (llama_embd_normalize v n))) = 1"
    by (simp add: eq)
qed

lemma length_normalize:
  "n \<le> length v \<Longrightarrow> length (llama_embd_normalize v n) = n"
  by (simp add: llama_embd_normalize_def Let_def)

lemma region_store_same:
  "store emb (output + k * n_embd) vs = Inr emb' \<Longrightarrow> length vs = n_embd \<Longrightarrow>
   region emb' output n_embd k = vs"
  using store_same [of emb "output + k * n_embd" vs emb'] by (simp add: region_def)

lemma region_store_other:
  assumes "store emb (output + k * n_embd) vs = Inr emb'" and "length vs = n_embd" and "r \<noteq> k"
  shows "region emb' output n_embd r = region emb output n_embd r"
proof -
  have "r < k \<or> k < r" using assms(3) by arith
  then have "(output + r * n_embd) + n_embd \<le> output + k * n_embd
             \<or> (output + k * n_embd) + length vs \<le> output + r * n_embd"
  proof
    assume "r < k"
    then have "Suc r \<le> k" by simp
    then have "Suc r * n_embd \<le> k * n_embd" by (rule mult_le_mono1)
    then show ?thesis by simp
  next
    assume "k < r"
    then have "Suc k \<le> r" by simp
    then have "Suc k * n_embd \<le> r * n_embd" by (rule mult_le_mono1)
    then show ?thesis using assms(2) by simp
  qed
  then show ?thesis
    unfolding region_def by (rule store_other [OF assms(1)])
qed


lemma batch_decode_prefix:
  assumes one: "\<forall>i<length batch. \<forall>j<length batch.
                  logits (batch ! i) \<and> logits (batch ! j) \<and> seq_id (batch ! i) = seq_id (batch ! j)
                  \<longrightarrow> i = j"
    and bounds: "\<forall>i<length batch. logits (batch ! i)
                  \<longrightarrow> output + seq_id (batch ! i) * n_embd + n_embd \<le> length emb"
    and vecs: "\<forall>i<length batch. \<forall>v. fetch_native eng ctx batch i = Some v \<longrightarrow> n_embd \<le> length v"
  shows "k \<le> length batch \<Longrightarrow>
         \<exists>emb'. for_each (batch_decode_body eng ctx batch output n_embd) [0..<k] emb = Inr emb'
           \<and> length emb' = length emb
           \<and> (\<forall>i<k. logits (batch ! i) \<longrightarrow>
                 region emb' output n_embd (seq_id (batch ! i)) =
                   (case fetch_native eng ctx batch i of
                      Some v \<Rightarrow> llama_embd_normalize v n_embd
                    | None \<Rightarrow> region emb output n_embd (seq_id (batch ! i))))
           \<and> (\<forall>r. (\<forall>i<k. logits (batch ! i) \<longrightarrow> seq_id (batch ! i) \<noteq> r) \<longrightarrow>
                 region emb' output n_embd r = region emb output n_embd r)"
proof (induction k)
  case 0
  show ?case by simp
next
  case (Suc k)
  then have k: "k < length batch" by simp
  from Suc obtain emb1 where
    run: "for_each (batch_decode_body eng ctx batch output n_embd) [0..<k] emb = Inr emb1"
    and len: "length emb1 = length emb"
    and prev: "\<And>i. i < k \<Longrightarrow> logits (batch ! i) \<Longrightarrow>
                 region emb1 output n_embd (seq_id (batch ! i)) =
                   (case fetch_native eng ctx batch i of
                      Some v \<Rightarrow> llama_embd_normalize v n_embd
                    | None \<Rightarrow> region emb output n_embd (seq_id (batch ! i)))"
    and rest: "\<And>r. (\<forall>i<k. logits (batch ! i) \<longrightarrow> seq_id (batch ! i) \<noteq> r) \<Longrightarrow>
                 region emb1 output n_embd r = region emb output n_embd r"
    by auto
  have step: "for_each (batch_decode_body eng ctx batch output n_embd) [0..<Suc k] emb =
                batch_decode_body eng ctx batch output n_embd k emb1"
    unfolding for_each_Suc run by simp
  show ?case
  proof (cases "logits (batch ! k)")
    case False
    then have body: "batch_decode_body eng ctx batch output n_embd k emb1 = Inr emb1"
      by (simp add: batch_decode_body_def)
    have "\<forall>i<Suc k. logits (batch ! i) \<longrightarrow>
            region emb1 output n_embd (seq_id (batch ! i)) =
              (case fetch_native eng ctx batch i of
                 Some v \<Rightarrow> llama_embd_normalize v n_embd
               | None \<Rightarrow> region emb output n_embd (seq_id (batch ! i)))"
      using prev False by (auto simp: less_Suc_eq)
    moreover have "\<forall>r. (\<forall>i<Suc k. logits (batch ! i) \<longrightarrow> seq_id (batch ! i) \<noteq> r) \<longrightarrow>
            region emb1 output n_embd r = region emb output n_embd r"
      using rest by simp
    ultimately show ?thesis using step body len by simp
  next
    case marked: True
    have fresh: "\<forall>i<k. logits (batch ! i) \<longrightarrow> seq_id (batch ! i) \<noteq> seq_id (batch ! k)"
    proof (intro allI impI notI)
      fix i assume "i < k" "logits (batch ! i)" "seq_id (batch ! i) = seq_id (batch ! k)"
      with one k marked have "i = k" by auto
      with \<open>i < k\<close> show False by simp
    qed
    show ?thesis
    proof (cases "fetch_native eng ctx batch k")
      case None
      then have body: "batch_decode_body eng ctx batch output n_embd k emb1 = Inr emb1"
        by (simp add: batch_decode_body_def)
      have "region emb1 output n_embd (seq_id (batch ! k)) = region emb output n_embd (seq_id (batch ! k))"
        using rest [OF fresh] .
      then have "\<forall>i<Suc k. logits (batch ! i) \<longrightarrow>
            region emb1 output n_embd (seq_id (batch ! i)) =
              (case fetch_native eng ctx batch i of
                 Some v \<Rightarrow> llama_embd_normalize v n_embd
               | None \<Rightarrow> region emb output n_embd (seq_id (batch ! i)))"
        using prev None by (auto simp: less_Suc_eq)
      moreover have "\<forall>r. (\<forall>i<Suc k. logits (batch ! i) \<longrightarrow> seq_id (batch ! i) \<noteq> r) \<longrightarrow>
            region emb1 output n_embd r = region emb output n_embd r"
        using rest by simp
      ultimately show ?thesis using step body len by simp
    next
      case (Some v)
      with vecs k have v: "n_embd \<le> length v" by blast
      let ?w = "llama_embd_normalize v n_embd"
      have w: "length ?w = n_embd" using v by (rule length_normalize)
      from bounds k marked
      have "output + seq_id (batch ! k) * n_embd + n_embd \<le> length emb"
        by blast
      then have "output + seq_id (batch ! k) * n_embd + length ?w \<le> length emb1"
        by (simp add: w len)
      then obtain emb2 where st: "store emb1 (output + seq_id (batch ! k) * n_embd) ?w = Inr emb2"
        using store_ok by blast
      have body: "batch_decode_body eng ctx batch output n_embd k emb1 = Inr emb2"
        using marked Some v st by (simp add: batch_decode_body_def)
      have len2: "length emb2 = length emb" using store_length [OF st] len by simp
      have same: "region emb2 output n_embd (seq_id (batch ! k)) = ?w"
        using region_store_same [OF st w] .
      have other: "region emb2 output n_embd r = region emb1 output n_embd r"
        if "r \<noteq> seq_id (batch ! k)" for r
        using region_store_other [OF st w that] .
      have "\<forall>i<Suc k. logits (batch ! i) \<longrightarrow>
            region emb2 output n_embd (seq_id (batch ! i)) =
              (case fetch_native eng ctx batch i of
                 Some v \<Rightarrow> llama_embd_normalize v n_embd
               | None \<Rightarrow> region emb output n_embd (seq_id (batch ! i)))"
      proof (intro allI impI)
        fix i assume i: "i < Suc k" and li: "logits (batch ! i)"
        show "region emb2 output n_embd (seq_id (batch ! i)) =
              (case fetch_native eng ctx batch i of
                 Some v \<Rightarrow> llama_embd_normalize v n_embd
               | None \<Rightarrow> region emb output n_embd (seq_id (batch ! i)))"
        proof (cases "i = k")
          case True
          then show ?thesis using same Some by simp
        next
          case False
          with i have ik: "i < k" by simp
          with fresh li have "seq_id (batch ! i) \<noteq> seq_id (batch ! k)" by blast
          then show ?thesis using other prev [OF ik li] by simp
        qed
      qed
      moreover have "\<forall>r. (\<forall>i<Suc k. logits (batch ! i) \<longrightarrow> seq_id (batch ! i) \<noteq> r) \<longrightarrow>
            region emb2 output n_embd r = region emb output n_embd r"
      proof (intro allI impI)
        fix r assume r: "\<forall>i<Suc k. logits (batch ! i) \<longrightarrow> seq_id (batch ! i) \<noteq> r"
        then have "r \<noteq> seq_id (batch ! k)" using marked by auto
        moreover have "\<forall>i<k. logits (batch ! i) \<longrightarrow> seq_id (batch ! i) \<noteq> r" using r by simp
        ultimately show "region emb2 output n_embd r = region emb output n_embd r"
          using other rest by simp
      qed
      ultimately show ?thesis using step body len2 by simp
    qed
  qed
qed


lemma region_replicate:
  "output + k * n_embd + n_embd \<le> m \<Longrightarrow> region (replicate m 0) output n_embd k = replicate n_embd 0"
  by (simp add: region_def min_def)

text \<open>
  C6. \<^verbatim>\<open>batch_decode\<close> on a batch in which no two marked positions carry the same
  sequence id (the native assembly marks one position per sequence), with every region in
  the buffer and every vector of the engine at least \<open>n_embd\<close> long: the call returns a
  buffer of the same size in which, for every marked position, the region of its sequence
  id holds the normalized sequence-level embedding if the engine has one, else the
  normalized embedding of the position if the engine has that, else what it held before
  (all zeros, when the buffer was all zeros). The normalization leaves a zero vector
  unchanged and divides any other vector by its Euclidean norm, which gives a vector of
  norm one.
\<close>

theorem batch_decode_fetch_normalize_write:
  fixes eng :: "'c engine" and ctx :: 'c and batch :: llama_batch
  defines "decoded \<equiv> llama_decode eng (llama_kv_cache_clear eng ctx) batch"
  assumes one: "\<forall>i<length batch. \<forall>j<length batch.
                  logits (batch ! i) \<and> logits (batch ! j) \<and> seq_id (batch ! i) = seq_id (batch ! j)
                  \<longrightarrow> i = j"
    and bounds: "\<forall>i<length batch. logits (batch ! i)
                  \<longrightarrow> output + seq_id (batch ! i) * n_embd + n_embd \<le> length emb"
    and vecs: "\<forall>i<length batch. \<forall>v.
                  llama_get_embeddings_seq eng decoded (seq_id (batch ! i)) = Some v
                  \<or> llama_get_embeddings_ith eng decoded i = Some v
                  \<longrightarrow> n_embd \<le> length v"
  shows "\<exists>emb'. batch_decode eng ctx batch emb output n_seq n_embd = (decoded, Inr emb')
           \<and> length emb' = length emb
           \<and> (\<forall>i<length batch. logits (batch ! i) \<longrightarrow>
                 region emb' output n_embd (seq_id (batch ! i)) =
                   (case llama_get_embeddings_seq eng decoded (seq_id (batch ! i)) of
                      Some v \<Rightarrow> llama_embd_normalize v n_embd
                    | None \<Rightarrow>
                        (case llama_get_embeddings_ith eng decoded i of
                           Some v \<Rightarrow> llama_embd_normalize v n_embd
                         | None \<Rightarrow> region emb output n_embd (seq_id (batch ! i)))))
           \<and> (\<forall>i<length batch. logits (batch ! i) \<longrightarrow>
                 llama_get_embeddings_seq eng decoded (seq_id (batch ! i)) = None \<longrightarrow>
                 llama_get_embeddings_ith eng decoded i = None \<longrightarrow>
                 emb = replicate (length emb) 0 \<longrightarrow>
                 region emb' output n_embd (seq_id (batch ! i)) = replicate n_embd 0)
           \<and> (\<forall>v. if \<forall>x\<in>set (take n_embd v). x = 0
                   then llama_embd_normalize v n_embd = take n_embd v
                   else llama_embd_normalize v n_embd
                          = map (\<lambda>x. x / sqrt (sum_list (map (\<lambda>x. x * x) (take n_embd v))))
                              (take n_embd v)
                        \<and> sqrt (sum_list (map (\<lambda>y. y * y) (llama_embd_normalize v n_embd))) = 1)"
proof -
  have vecs': "\<forall>i<length batch. \<forall>v. fetch_native eng decoded batch i = Some v \<longrightarrow> n_embd \<le> length v"
    using vecs by (auto simp: fetch_native_def split: option.splits)
  from batch_decode_prefix [OF one bounds vecs', of "length batch"]
  obtain emb' where
    run: "for_each (batch_decode_body eng decoded batch output n_embd) [0..<length batch] emb = Inr emb'"
    and len: "length emb' = length emb"
    and reg: "\<And>i. i < length batch \<Longrightarrow> logits (batch ! i) \<Longrightarrow>
                 region emb' output n_embd (seq_id (batch ! i)) =
                   (case fetch_native eng decoded batch i of
                      Some v \<Rightarrow> llama_embd_normalize v n_embd
                    | None \<Rightarrow> region emb output n_embd (seq_id (batch ! i)))"
    by auto
  have 1: "batch_decode eng ctx batch emb output n_seq n_embd = (decoded, Inr emb')"
    by (simp add: batch_decode_def Let_def decoded_def [symmetric] run)
  have 2: "\<forall>i<length batch. logits (batch ! i) \<longrightarrow>
                 region emb' output n_embd (seq_id (batch ! i)) =
                   (case llama_get_embeddings_seq eng decoded (seq_id (batch ! i)) of
                      Some v \<Rightarrow> llama_embd_normalize v n_embd
                    | None \<Rightarrow>
                        (case llama_get_embeddings_ith eng decoded i of
                           Some v \<Rightarrow> llama_embd_normalize v n_embd
                         | None \<Rightarrow> region emb output n_embd (seq_id (batch ! i))))"
    using reg by (auto simp: fetch_native_def split: option.splits)
  have 3: "\<forall>i<length batch. logits (batch ! i) \<longrightarrow>
                 llama_get_embeddings_seq eng decoded (seq_id (batch ! i)) = None \<longrightarrow>
                 llama_get_embeddings_ith eng decoded i = None \<longrightarrow>
                 emb = replicate (length emb) 0 \<longrightarrow>
                 region emb' output n_embd (seq_id (batch ! i)) = replicate n_embd 0"
  proof (intro allI impI)
    fix i assume i: "i < length batch" and l: "logits (batch ! i)"
      and n1: "llama_get_embeddings_seq eng decoded (seq_id (batch ! i)) = None"
      and n2: "llama_get_embeddings_ith eng decoded i = None"
      and z: "emb = replicate (length emb) 0"
    from bounds i l have b: "output + seq_id (batch ! i) * n_embd + n_embd \<le> length emb" by blast
    have "region emb' output n_embd (seq_id (batch ! i)) = region emb output n_embd (seq_id (batch ! i))"
      using reg [OF i l] n1 n2 by (simp add: fetch_native_def)
    also have "\<dots> = region (replicate (length emb) 0) output n_embd (seq_id (batch ! i))"
      using z by simp
    also have "\<dots> = replicate n_embd 0"
      using b by (rule region_replicate)
    finally show "region emb' output n_embd (seq_id (batch ! i)) = replicate n_embd 0" .
  qed
  have 4: "\<forall>v. if \<forall>x\<in>set (take n_embd v). x = 0
                   then llama_embd_normalize v n_embd = take n_embd v
                   else llama_embd_normalize v n_embd
                          = map (\<lambda>x. x / sqrt (sum_list (map (\<lambda>x. x * x) (take n_embd v))))
                              (take n_embd v)
                        \<and> sqrt (sum_list (map (\<lambda>y. y * y) (llama_embd_normalize v n_embd))) = 1"
    using normalize_zero normalize_nonzero by auto
  show ?thesis using 1 len 2 3 4 by blast
qed

text \<open>The batches of the examples are what \<^verbatim>\<open>batch_add_seq\<close> builds.\<close>

lemma example_batches_assembled:
  "batch_add_seq 8 [] [1, 3, 5] 0 True = Inr one_seq_batch"
  "batch_add_seq 8 one_seq_batch [2, 4] 1 True = Inr two_seq_batch"
  "batch_add_seq 8 [] [7, 46] 0 False = Inr (take 2 native_batch)"
  "batch_add_seq 8 (take 2 native_batch) [8, 46] 1 False = Inr (take 4 native_batch)"
  "batch_add_seq 8 (take 4 native_batch) [9, 46] 2 False = Inr native_batch"
  by (simp_all add: batch_add_seq_eq seq_slots_def one_seq_batch_def two_seq_batch_def
        native_batch_def upt_rec)

theorem batch_decode_fetch_normalize_write_witness:
  "batch_decode pooled_engine () native_batch [0, 0, 0, 0, 0, 0] 0 3 2
   = ((), Inr [3 / 5, 4 / 5, 0, 1, 0, 0])"
  using batch_decode_fetch_normalize_write
    [of native_batch 0 2 "[0, 0, 0, 0, 0, 0]" pooled_engine "()" 3]
  by (simp add: batch_decode_def batch_decode_body_def fetch_native_def pooled_engine_def
        native_batch_def llama_embd_normalize_def store_def upt_rec)

subsection \<open>The manual-pooling extractor\<close>

lemma mean_pooling_defined:
  "1 \<le> n_tokens \<Longrightarrow> n_tokens * n_embd \<le> length embd \<Longrightarrow>
   \<exists>out. mean_pooling embd n_tokens n_embd = Inr out \<and> length out = n_embd"
  by (simp add: mean_pooling_eq)

lemma mean_pooling_zero_tokens:
  "0 < n_embd \<Longrightarrow> mean_pooling embd 0 n_embd = Inl DivisionByZero"
  by (simp add: mean_pooling_def)

lemma mean_pooling_no_division_by_zero:
  "1 \<le> n_tokens \<Longrightarrow> mean_pooling embd n_tokens n_embd \<noteq> Inl DivisionByZero"
  by (simp add: mean_pooling_def Let_def)

lemma load_no_division_by_zero: "load buf off n \<noteq> Inl DivisionByZero"
  by (simp add: load_def Let_def)

lemma store_no_division_by_zero: "store buf off vs \<noteq> Inl DivisionByZero"
  by (simp add: store_def)

lemma pool_previous_seq_no_division_by_zero:
  "1 \<le> token_of_seq \<Longrightarrow>
   pool_previous_seq batch output n_embd i temp_out token_of_seq emb \<noteq> Inl DivisionByZero"
  using mean_pooling_no_division_by_zero [of token_of_seq]
  by (auto simp: pool_previous_seq_def load_no_division_by_zero store_no_division_by_zero
           split: sum.splits)

lemma manual_pooling_body_no_division_by_zero:
  "1 \<le> token_of_seq \<Longrightarrow>
   manual_pooling_body eng ctx batch output n_embd i (temp_out, token_of_seq, emb)
     \<noteq> Inl DivisionByZero"
  using pool_previous_seq_no_division_by_zero [of token_of_seq]
  by (auto simp: store_no_division_by_zero split: sum.splits option.splits)

lemma manual_pooling_body_counts:
  assumes "logits (batch ! k)" and "llama_get_embeddings_ith eng ctx k \<noteq> None"
    and "manual_pooling_body eng ctx batch output n_embd k st = Inr (temp_out, token_of_seq, emb)"
  shows "1 \<le> token_of_seq"
proof -
  obtain t n e where st: "st = (t, n, e)" by (cases st) auto
  from assms show ?thesis
    unfolding st by (auto split: if_splits sum.splits option.splits)
qed

lemma token_of_seq_positive:
  assumes "0 < i" and "logits (batch ! (i - 1))"
    and "llama_get_embeddings_ith eng ctx (i - 1) \<noteq> None"
    and "for_each (manual_pooling_body eng ctx batch output n_embd) [0..<i] st0
           = Inr (temp_out, token_of_seq, emb)"
  shows "1 \<le> token_of_seq"
proof -
  from assms(1) obtain k where i: "i = Suc k" by (cases i) auto
  from assms(4) obtain st where
    "manual_pooling_body eng ctx batch output n_embd k st = Inr (temp_out, token_of_seq, emb)"
    unfolding i for_each_Suc by (auto split: sum.splits)
  then show ?thesis
    using assms(2,3) manual_pooling_body_counts unfolding i by fastforce
qed


text \<open>
  C10. \<^verbatim>\<open>mean_pooling\<close> divides by \<open>n_tokens\<close> without a guard: with no token and
  \<open>n_embd > 0\<close> it divides by zero, and with \<open>n_tokens \<ge> 1\<close> vectors in its input it
  returns a vector of \<open>n_embd\<close> components. At its call site: when the loop of the
  manual-pooling extractor reaches position \<open>i > 0\<close> and the embedding of position
  \<open>i - 1\<close> was fetched (the position is marked, as every position of a manual-pooling
  batch is, and the fetch succeeded), \<^verbatim>\<open>token_of_seq\<close> is at least 1, so the body at
  position \<open>i\<close> does not divide by zero. Position \<open>i - 1\<close> lies after the previous
  sequence boundary, so this covers the case that every fetch since that boundary
  succeeded.
\<close>

theorem mean_pooling_divisor_at_call_site:
  "(1 \<le> n_tokens \<and> n_tokens * n_embd \<le> length embd \<longrightarrow>
      (\<exists>out. mean_pooling embd n_tokens n_embd = Inr out \<and> length out = n_embd))
   \<and> (0 < n_embd \<longrightarrow> mean_pooling embd 0 n_embd = Inl DivisionByZero)
   \<and> (0 < i \<and> logits (batch ! (i - 1)) \<and> llama_get_embeddings_ith eng ctx (i - 1) \<noteq> None
        \<and> for_each (manual_pooling_body eng ctx batch output n_embd) [0..<i]
              (replicate (length batch * n_embd) None, 0, emb)
            = Inr (temp_out, token_of_seq, emb')
      \<longrightarrow> 1 \<le> token_of_seq
          \<and> manual_pooling_body eng ctx batch output n_embd i (temp_out, token_of_seq, emb')
              \<noteq> Inl DivisionByZero)"
proof (intro conjI impI)
  assume "1 \<le> n_tokens \<and> n_tokens * n_embd \<le> length embd"
  then show "\<exists>out. mean_pooling embd n_tokens n_embd = Inr out \<and> length out = n_embd"
    by (simp add: mean_pooling_defined)
next
  assume "0 < n_embd"
  then show "mean_pooling embd 0 n_embd = Inl DivisionByZero"
    by (rule mean_pooling_zero_tokens)
next
  assume a: "0 < i \<and> logits (batch ! (i - 1)) \<and> llama_get_embeddings_ith eng ctx (i - 1) \<noteq> None
        \<and> for_each (manual_pooling_body eng ctx batch output n_embd) [0..<i]
              (replicate (length batch * n_embd) None, 0, emb)
            = Inr (temp_out, token_of_seq, emb')"
  then show pos: "1 \<le> token_of_seq"
    using token_of_seq_positive [of i batch eng ctx] by blast
  show "manual_pooling_body eng ctx batch output n_embd i (temp_out, token_of_seq, emb')
          \<noteq> Inl DivisionByZero"
    using pos by (rule manual_pooling_body_no_division_by_zero)
qed

lemma two_seq_batch_eq:
  "two_seq_batch =
     [\<lparr>token = 1, pos = 0, seq_id = 0, logits = True\<rparr>,
      \<lparr>token = 3, pos = 1, seq_id = 0, logits = True\<rparr>,
      \<lparr>token = 5, pos = 2, seq_id = 0, logits = True\<rparr>,
      \<lparr>token = 2, pos = 0, seq_id = 1, logits = True\<rparr>,
      \<lparr>token = 4, pos = 1, seq_id = 1, logits = True\<rparr>]"
  by (simp add: two_seq_batch_def one_seq_batch_def)

lemma two_seq_prefix:
  "for_each (manual_pooling_body token_engine two_seq_batch two_seq_batch 0 2) [0..<3]
         (replicate (length two_seq_batch * 2) None, 0, [0, 0, 0, 0])
       = Inr ([Some 1, Some 0, Some 3, Some 0, Some 5, Some 0, None, None, None, None], 3,
              [0, 0, 0, 0])"
proof -
  have r: "replicate (length two_seq_batch * 2) None
             = [None, None, None, None, None, None, None, None, None, None :: real option]"
    by (simp add: two_seq_batch_eq eval_nat_numeral)
  show ?thesis
    unfolding r by (simp add: two_seq_batch_eq token_engine_def store_def upt_rec)
qed

theorem mean_pooling_divisor_at_call_site_witness:
  "mean_pooling [1, 0, 3, 0, 5, 0] 3 2 \<noteq> Inl DivisionByZero
   \<and> mean_pooling [] 0 2 = Inl DivisionByZero
   \<and> manual_pooling_body token_engine two_seq_batch two_seq_batch 0 2 3
         ([Some 1, Some 0, Some 3, Some 0, Some 5, Some 0, None, None, None, None], 3,
          [0, 0, 0, 0])
       \<noteq> Inl DivisionByZero"
proof -
  note inst = mean_pooling_divisor_at_call_site
    [of 3 2 "[1, 0, 3, 0, 5, 0]" 3 two_seq_batch token_engine two_seq_batch 0 "[0, 0, 0, 0]"
        "[Some 1, Some 0, Some 3, Some 0, Some 5, Some 0, None, None, None, None]" 3
        "[0, 0, 0, 0]"]
  have h1: "(1::nat) \<le> 3 \<and> 3 * 2 \<le> length [1, 0, 3, 0, 5, 0 :: real]"
    by simp
  have h2: "(0::nat) < 2"
    by simp
  have h3: "(0::nat) < 3 \<and> logits (two_seq_batch ! (3 - 1))
        \<and> llama_get_embeddings_ith token_engine two_seq_batch (3 - 1) \<noteq> None
        \<and> for_each (manual_pooling_body token_engine two_seq_batch two_seq_batch 0 2) [0..<3]
              (replicate (length two_seq_batch * 2) None, 0, [0, 0, 0, 0])
            = Inr ([Some 1, Some 0, Some 3, Some 0, Some 5, Some 0, None, None, None, None], 3,
                   [0, 0, 0, 0])"
    using two_seq_prefix by (simp add: two_seq_batch_eq token_engine_def)
  from inst h1 have "\<exists>out. mean_pooling [1, 0, 3, 0, 5, 0] 3 2 = Inr out \<and> length out = 2"
    by blast
  then have c1: "mean_pooling [1, 0, 3, 0, 5, 0] 3 2 \<noteq> Inl DivisionByZero"
    by auto
  from mean_pooling_divisor_at_call_site [of 0 2 "[]", THEN conjunct2, THEN conjunct1] h2
  have c2: "mean_pooling [] 0 2 = Inl DivisionByZero"
    by (rule mp)
  from inst h3
  have c3: "manual_pooling_body token_engine two_seq_batch two_seq_batch 0 2 3
         ([Some 1, Some 0, Some 3, Some 0, Some 5, Some 0, None, None, None, None], 3,
          [0, 0, 0, 0])
       \<noteq> Inl DivisionByZero"
    by blast
  from c1 c2 c3 show ?thesis by blast
qed

text \<open>The embedding buffer is written only at a position \<open>i > 0\<close> whose \<^verbatim>\<open>pos\<close> is
  zero: a batch that holds one sequence leaves the buffer as it was.\<close>

lemma manual_pooling_body_no_boundary:
  assumes "\<not> (i \<noteq> 0 \<and> pos (batch ! i) = 0)"
    and "manual_pooling_body eng ctx batch output n_embd i st = Inr st'"
  shows "snd (snd st') = snd (snd st)"
proof -
  obtain t n e where st: "st = (t, n, e)" by (cases st) auto
  from assms show ?thesis
    unfolding st by (auto split: if_splits sum.splits option.splits)
qed

lemma for_each_no_boundary:
  "\<forall>i\<in>set xs. \<not> (i \<noteq> 0 \<and> pos (batch ! i) = 0) \<Longrightarrow>
   for_each (manual_pooling_body eng ctx batch output n_embd) xs st = Inr st' \<Longrightarrow>
   snd (snd st') = snd (snd st)"
proof (induction xs arbitrary: st)
  case Nil
  then show ?case by simp
next
  case (Cons i xs)
  from Cons.prems(2) obtain st1 where
    b: "manual_pooling_body eng ctx batch output n_embd i st = Inr st1"
    and r: "for_each (manual_pooling_body eng ctx batch output n_embd) xs st1 = Inr st'"
    by (auto split: sum.splits)
  have "snd (snd st1) = snd (snd st)"
    using Cons.prems(1) b by (intro manual_pooling_body_no_boundary) auto
  moreover have "snd (snd st') = snd (snd st1)"
    using Cons.prems(1) r by (intro Cons.IH) auto
  ultimately show ?case by simp
qed

lemma manual_pooling_one_sequence_unwritten:
  assumes "\<forall>i<length batch. i \<noteq> 0 \<longrightarrow> pos (batch ! i) \<noteq> 0"
    and "snd (batch_decode_with_manual_pooling eng ctx batch emb output n_seq n_embd) = Inr emb'"
  shows "emb' = emb"
proof -
  let ?ctx = "llama_decode eng (llama_kv_cache_clear eng ctx) batch"
  from assms(2) obtain t n where
    run: "for_each (manual_pooling_body eng ?ctx batch output n_embd) [0..<length batch]
            (replicate (length batch * n_embd) None, 0, emb) = Inr (t, n, emb')"
    by (auto simp: batch_decode_with_manual_pooling_def Let_def split: sum.splits)
  have "snd (snd (t, n, emb')) = snd (snd (replicate (length batch * n_embd) None :: real option list, 0::nat, emb))"
    using assms(1) by (intro for_each_no_boundary [OF _ run]) auto
  then show ?thesis by simp
qed

text \<open>
  C2. The claim: when every fetch succeeds, the mean vector of the last sequence of the
  batch is written to its region after the token loop. The function ends with the loop
  (lines 107-108). The two batches are those that \<^verbatim>\<open>batch_add_seq\<close> builds in
  manual-pooling mode. With the embeddings \<open>[1,0]\<close>, \<open>[3,0]\<close>, \<open>[5,0]\<close> of a batch of one sequence
  the region of that sequence keeps its zeros, where the mean is \<open>[3,0]\<close>; with a second
  sequence of embeddings \<open>[2,0]\<close>, \<open>[4,0]\<close> the first region receives \<open>[3,0]\<close> and the
  second keeps its zeros, where the mean is \<open>[3,0]\<close> as well.
\<close>

theorem manual_pooling_last_sequence_unwritten:
  "batch_add_seq 8 [] [1, 3, 5] 0 True = Inr one_seq_batch
   \<and> batch_add_seq 8 one_seq_batch [2, 4] 1 True = Inr two_seq_batch
   \<and> snd (batch_decode_with_manual_pooling token_engine [] one_seq_batch
          [0, 0] 0 1 2) = Inr [0, 0]
   \<and> snd (batch_decode_with_manual_pooling token_engine [] two_seq_batch
          [0, 0, 0, 0] 0 2 2) = Inr [3, 0, 0, 0]"
proof -
  have "snd (batch_decode_with_manual_pooling token_engine [] one_seq_batch
          [0, 0] 0 1 2) = Inr [0, 0]"
    by (simp add: batch_decode_with_manual_pooling_def one_seq_batch_def
          token_engine_def store_def upt_rec)
  moreover have ex: "mean_pooling [1, 0, 3, 0, 5, 0] (Suc (Suc (Suc 0))) 2 = Inr [3, 0]"
    using mean_pooling_example by (simp add: numeral_3_eq_3)
  have "snd (batch_decode_with_manual_pooling token_engine [] two_seq_batch
          [0, 0, 0, 0] 0 2 2) = Inr [3, 0, 0, 0]"
    by (simp add: batch_decode_with_manual_pooling_def two_seq_batch_eq
          token_engine_def store_def load_def pool_previous_seq_def ex upt_rec)
  ultimately show ?thesis
    using example_batches_assembled(1,2) by blast
qed

subsection \<open>The run\<close>

text \<open>
  C7. After the preprocessing step the separator is the last token of every sequence, and
  the append step is idempotent: a sequence that already ends with the separator is left
  unchanged, so applying the step twice gives the same sequence as applying it once.
\<close>

theorem add_sep_last_idempotent:
  "add_sep sep inp \<noteq> [] \<and> last (add_sep sep inp) = sep
   \<and> (inp \<noteq> [] \<and> last inp = sep \<longrightarrow> add_sep sep inp = inp)
   \<and> add_sep sep (add_sep sep inp) = add_sep sep inp"
  by (simp add: add_sep_def)

theorem add_sep_last_idempotent_witness:
  "add_sep 102 [101, 7, 102] = [101, 7, 102]
   \<and> add_sep 102 (add_sep 102 [101, 7]) = [101, 7, 102]"
  using add_sep_last_idempotent [of 102 "[101, 7, 102]"]
        add_sep_last_idempotent [of 102 "[101, 7]"]
  by (simp add: add_sep_def)

text \<open>
  C1. The claim: in a run with manual pooling every batch, the final one included, goes
  to the manual-pooling extractor. The call of line 237 is \<^verbatim>\<open>batch_decode\<close> whatever
  the mode: the last decode call of every run is native, where the calls of the loop
  (lines 220-224) follow the mode. For the one prompt \<open>ab.\<close> the only call is the final
  one, and the buffer holds the normalized embedding of the last token, not the mean of
  the three embeddings.
\<close>

theorem final_batch_ignores_manual_pooling:
  "calls_of (break_into_batches eng True n_batch ctx inputs) \<noteq> []
   \<and> dc_extractor (last (calls_of (break_into_batches eng True n_batch ctx inputs))) = Native_Pooling
   \<and> map dc_extractor
        (calls_of (break_into_batches token_engine True 8 [] [[1, 2, 3, 46], [1, 2, 3, 4, 5, 46]]))
      = [Manual_Pooling, Native_Pooling]
   \<and> map dc_extractor (decode_calls (main token_engine [] ''ab.'' 8 8 True [] True))
      = [Native_Pooling]
   \<and> embeddings (main token_engine [] ''ab.'' 8 8 True [] True) = [1, 0]"
proof -
  have "map dc_extractor
        (calls_of (break_into_batches token_engine True 8 [] [[1, 2, 3, 46], [1, 2, 3, 4, 5, 46]]))
      = [Manual_Pooling, Native_Pooling]"
    by (simp add: calls_of_break_into_batches seq_slots_def upt_rec)
  moreover have "calls_of (break_into_batches eng True n_batch ctx inputs) \<noteq> []
   \<and> dc_extractor (last (calls_of (break_into_batches eng True n_batch ctx inputs))) = Native_Pooling"
    by (simp add: break_into_batches_def Let_def calls_of_final_batch split: prod.splits)
  moreover have "map dc_extractor (decode_calls (main token_engine [] ''ab.'' 8 8 True [] True))
      = [Native_Pooling]
   \<and> embeddings (main token_engine [] ''ab.'' 8 8 True [] True) = [1, 0]"
    by (simp add: main_def split_lines_def token_engine_def add_sep_def break_into_batches_def
          break_into_batches_body_def llama_batch_clear_def batch_add_seq_eq seq_slots_def
          batch_decode_def batch_decode_body_def fetch_native_def llama_embd_normalize_def
          store_def output_sink_def upt_rec Let_def)
  ultimately show ?thesis by blast
qed

lemma tokenize_prompts_None_iff:
  "tokenize_prompts tok n prompts = None \<longleftrightarrow> (\<exists>p\<in>set prompts. n < length (tok p))"
  by (induction prompts) (auto simp: Let_def split: option.splits)

lemma tokenize_prompts_Some:
  "\<forall>p\<in>set prompts. length (tok p) \<le> n \<Longrightarrow> tokenize_prompts tok n prompts = Some (map tok prompts)"
  by (induction prompts) (auto simp: Let_def split: option.splits)

text \<open>
  C4. When some prompt has more than \<open>n_batch\<close> tokens, the run ends with no sequence
  preprocessed, no decode call, no embedding buffer, nothing written to a file and
  nothing printed; \<^verbatim>\<open>main\<close>
  returns 1 (or the assertion of line 166 has failed before).
\<close>

theorem over_long_prompt_ends_run:
  assumes "\<exists>p\<in>set (split_lines prompt). n_batch < length (llama_tokenize eng p)"
  shows "main eng ctx prompt n_batch n_ctx manual_pooling logits_file fopen_ok =
           \<lparr>status = (if n_batch < n_ctx then Assert_Failed else Return 1), sequences = [],
            decode_calls = [], embeddings = [], file_out = None, preview = None\<rparr>"
proof -
  have "tokenize_prompts (llama_tokenize eng) n_batch (split_lines prompt) = None"
    using assms by (simp add: tokenize_prompts_None_iff)
  then show ?thesis by (simp add: main_def Let_def)
qed

theorem over_long_prompt_ends_run_witness:
  "main token_engine [] ''abcdefghi'' 8 8 True ''out.bin'' True =
     \<lparr>status = Return 1, sequences = [], decode_calls = [], embeddings = [],
      file_out = None, preview = None\<rparr>"
  using over_long_prompt_ends_run [of "''abcdefghi''" 8 token_engine "[]" 8 True "''out.bin''" True]
  by (simp add: split_lines_def token_engine_def)

text \<open>Once the run has faulted it stays so; and a sequence with more than \<open>n_batch\<close>
  tokens makes it fault when it is added to the batch, whose arrays hold \<open>n_batch\<close>
  slots.\<close>

lemma faulted_emb_of: "faulted st \<longleftrightarrow> (\<exists>f. emb_of st = Inl f)"
  by (cases st) simp

lemma encode_if_at_capacity_faulted:
  "faulted st \<Longrightarrow> faulted (encode_if_at_capacity eng manual_pooling n_batch n_embd n_toks st)"
  by (cases st) (auto simp: Let_def split: prod.splits)

lemma add_to_batch_faulted:
  "faulted st \<Longrightarrow> faulted (add_to_batch manual_pooling n_batch inp st)"
  by (cases st) (auto split: sum.splits)

lemma body_faulted:
  "faulted st \<Longrightarrow> faulted (break_into_batches_body eng manual_pooling n_batch n_embd inp st)"
  by (simp add: break_into_batches_body_def encode_if_at_capacity_faulted add_to_batch_faulted)

lemma fold_faulted:
  "faulted st \<Longrightarrow>
   faulted (fold (break_into_batches_body eng manual_pooling n_batch n_embd) inputs st)"
  by (induction inputs arbitrary: st) (simp_all add: body_faulted)

lemma final_batch_faulted: "faulted st \<Longrightarrow> faulted (final_batch eng n_embd st)"
  by (cases st) (auto simp: Let_def split: prod.splits)

lemma body_overflow:
  assumes "n_batch < length inp"
  shows "faulted (break_into_batches_body eng manual_pooling n_batch n_embd inp st)"
proof -
  obtain ctx batch p s emb calls where st: "st = (ctx, batch, p, s, emb, calls)"
    by (cases st) auto
  let ?x = "if manual_pooling then Manual_Pooling else Native_Pooling"
  obtain ctx' emb' where
    d: "decode_into ?x eng ctx batch emb (p * n_embd) s n_embd = (ctx', emb')"
    by (cases "decode_into ?x eng ctx batch emb (p * n_embd) s n_embd") auto
  have over: "batch_add_seq n_batch [] inp 0 manual_pooling = Inl OutOfBounds"
    using assms by (intro batch_add_seq_overflow) simp_all
  have "break_into_batches_body eng manual_pooling n_batch n_embd inp st
        = (ctx', [], p + s, 0 + 1, (case emb' of Inl g \<Rightarrow> Inl g | Inr e \<Rightarrow> Inl OutOfBounds),
           calls @ [\<lparr>dc_extractor = ?x, dc_batch = batch, dc_p = p, dc_s = s\<rparr>])"
    using assms
    by (simp add: st break_into_batches_body_def llama_batch_clear_def d over Let_def)
  then show ?thesis
    by (cases emb') simp_all
qed

lemma break_into_batches_overflow:
  assumes "inp \<in> set inputs" and "n_batch < length inp"
  shows "faulted (break_into_batches eng manual_pooling n_batch ctx inputs)"
proof -
  from assms(1) obtain xs ys where inputs: "inputs = xs @ inp # ys"
    by (auto simp: in_set_conv_decomp)
  show ?thesis
    unfolding break_into_batches_def Let_def inputs
    by (simp add: final_batch_faulted fold_faulted body_overflow [OF assms(2)])
qed

text \<open>
  C9. The length check of line 172 sees the tokens before the separator is appended. In
  a run whose prompts all have at most \<open>n_batch\<close> tokens, one of them exactly \<open>n_batch\<close>
  tokens that do not end with the separator: \<^verbatim>\<open>main\<close> does not return 1 at the check
  but goes on to the decode calls; the sequences it preprocesses are the tokenized prompts
  with the separator appended, and that of the prompt has \<open>n_batch + 1\<close> tokens, more than
  the assembly takes for granted; adding it to the batch of \<open>n_batch\<close> slots is a write
  outside the arrays of the batch.
\<close>

theorem length_check_before_separator:
  assumes "n_ctx \<le> n_batch"
    and "\<forall>q\<in>set (split_lines prompt). length (llama_tokenize eng q) \<le> n_batch"
    and "p \<in> set (split_lines prompt)"
    and "length (llama_tokenize eng p) = n_batch"
    and "llama_tokenize eng p = [] \<or> last (llama_tokenize eng p) \<noteq> llama_token_sep eng"
  shows "status (main eng ctx prompt n_batch n_ctx manual_pooling logits_file fopen_ok) \<noteq> Return 1
       \<and> decode_calls (main eng ctx prompt n_batch n_ctx manual_pooling logits_file fopen_ok) \<noteq> []
       \<and> sequences (main eng ctx prompt n_batch n_ctx manual_pooling logits_file fopen_ok)
           = map (\<lambda>q. add_sep (llama_token_sep eng) (llama_tokenize eng q)) (split_lines prompt)
       \<and> add_sep (llama_token_sep eng) (llama_tokenize eng p)
           \<in> set (sequences (main eng ctx prompt n_batch n_ctx manual_pooling logits_file fopen_ok))
       \<and> length (add_sep (llama_token_sep eng) (llama_tokenize eng p)) = n_batch + 1
       \<and> (\<exists>f. status (main eng ctx prompt n_batch n_ctx manual_pooling logits_file fopen_ok)
                = Fault f)"
proof -
  let ?sep = "llama_token_sep eng"
  let ?tok = "llama_tokenize eng"
  let ?inputs = "map (add_sep ?sep \<circ> ?tok) (split_lines prompt)"
  let ?st = "break_into_batches eng manual_pooling n_batch ctx ?inputs"
  have tok: "tokenize_prompts ?tok n_batch (split_lines prompt) = Some (map ?tok (split_lines prompt))"
    using assms(2) by (rule tokenize_prompts_Some)
  have len: "length (add_sep ?sep (?tok p)) = n_batch + 1"
    using assms(4,5) by (auto simp: add_sep_def)
  have mem: "add_sep ?sep (?tok p) \<in> set ?inputs"
    using assms(3) by simp
  have "faulted ?st"
    using mem len by (intro break_into_batches_overflow [of "add_sep ?sep (?tok p)"]) simp_all
  then obtain f where f: "emb_of ?st = Inl f"
    by (auto simp: faulted_emb_of)
  have main: "main eng ctx prompt n_batch n_ctx manual_pooling logits_file fopen_ok
        = \<lparr>status = Fault f, sequences = ?inputs, decode_calls = calls_of ?st,
           embeddings = [], file_out = None, preview = None\<rparr>"
    using assms(1) by (simp add: main_def Let_def tok f)
  have calls: "calls_of ?st \<noteq> []"
    by (simp add: break_into_batches_def Let_def calls_of_final_batch split: prod.splits)
  show ?thesis
    unfolding main using calls len assms(3) by (simp add: comp_def)
qed

theorem length_check_before_separator_witness:
  "status (main token_engine [] ''abc'' 3 3 False [] True) = Fault OutOfBounds
   \<and> sequences (main token_engine [] ''abc'' 3 3 False [] True) = [[97, 98, 99, 46]]
   \<and> map dc_batch (decode_calls (main token_engine [] ''abc'' 3 3 False [] True)) = [[], []]
   \<and> llama_tokenize token_engine ''abc'' = [97, 98, 99]"
  using length_check_before_separator [of 3 3 "''abc''" token_engine "''abc''" "[]" False "[]" True]
  by (simp add: main_def split_lines_def token_engine_def add_sep_def break_into_batches_def
        break_into_batches_body_def llama_batch_clear_def batch_add_seq_overflow
        batch_decode_def Let_def)

subsection \<open>The output\<close>

lemma batch_decode_body_length:
  "batch_decode_body eng ctx batch output n_embd i emb = Inr emb' \<Longrightarrow> length emb' = length emb"
  by (auto simp: batch_decode_body_def store_length split: if_splits option.splits)

lemma batch_decode_length:
  assumes "batch_decode eng ctx batch emb output n_seq n_embd = (ctx', Inr emb')"
  shows "length emb' = length emb"
proof -
  let ?ctx = "llama_decode eng (llama_kv_cache_clear eng ctx) batch"
  from assms have run: "for_each (batch_decode_body eng ?ctx batch output n_embd) [0..<length batch] emb = Inr emb'"
    by (auto simp: batch_decode_def Let_def)
  show ?thesis
    by (rule for_each_invariant [where P = "\<lambda>e. length e = length emb", OF _ _ run])
       (simp_all add: batch_decode_body_length)
qed

lemma pool_previous_seq_length:
  "pool_previous_seq batch output n_embd i temp_out token_of_seq emb = Inr emb' \<Longrightarrow>
   length emb' = length emb"
  by (auto simp: pool_previous_seq_def store_length split: if_splits sum.splits)

lemma manual_pooling_body_length:
  assumes "manual_pooling_body eng ctx batch output n_embd i st = Inr st'"
  shows "length (snd (snd st')) = length (snd (snd st))"
proof -
  obtain t n e where st: "st = (t, n, e)" by (cases st) auto
  from assms show ?thesis
    unfolding st
    by (auto simp: pool_previous_seq_length split: if_splits sum.splits option.splits)
qed

lemma manual_pooling_length:
  assumes "batch_decode_with_manual_pooling eng ctx batch emb output n_seq n_embd = (ctx', Inr emb')"
  shows "length emb' = length emb"
proof -
  let ?ctx = "llama_decode eng (llama_kv_cache_clear eng ctx) batch"
  from assms obtain t n where
    run: "for_each (manual_pooling_body eng ?ctx batch output n_embd) [0..<length batch]
            (replicate (length batch * n_embd) None, 0, emb) = Inr (t, n, emb')"
    by (auto simp: batch_decode_with_manual_pooling_def Let_def split: sum.splits)
  have "length (snd (snd (t, n, emb'))) = length emb"
    by (rule for_each_invariant [where P = "\<lambda>st. length (snd (snd st)) = length emb", OF _ _ run])
       (simp_all add: manual_pooling_body_length)
  then show ?thesis by simp
qed

lemma decode_into_length:
  assumes "decode_into x eng ctx batch emb output n_seq n_embd = (ctx', Inr e')"
  shows "\<exists>e. emb = Inr e \<and> length e' = length e"
proof (cases emb)
  case (Inl f)
  with assms show ?thesis by simp
next
  case (Inr e)
  with assms show ?thesis
    by (cases x) (auto simp: batch_decode_length manual_pooling_length)
qed

lemma decode_into_sized:
  assumes a: "case emb of Inl f \<Rightarrow> True | Inr e \<Rightarrow> length e = n"
  shows "case snd (decode_into x eng ctx batch emb output n_seq n_embd) of
           Inl f \<Rightarrow> True | Inr e \<Rightarrow> length e = n"
proof (cases "decode_into x eng ctx batch emb output n_seq n_embd")
  case (Pair ctx' r)
  show ?thesis
  proof (cases r)
    case (Inl f)
    with Pair show ?thesis by simp
  next
    case (Inr e')
    with Pair have "decode_into x eng ctx batch emb output n_seq n_embd = (ctx', Inr e')"
      by simp
    from decode_into_length [OF this] obtain e where "emb = Inr e" and "length e' = length e"
      by auto
    with a Pair Inr show ?thesis by simp
  qed
qed

lemma body_sized:
  assumes "emb_sized n st"
  shows "emb_sized n (break_into_batches_body eng manual_pooling n_batch n_embd inp st)"
proof -
  obtain ctx batch p s emb calls where st: "st = (ctx, batch, p, s, emb, calls)"
    by (cases st) auto
  from assms st have a: "case emb of Inl f \<Rightarrow> True | Inr e \<Rightarrow> length e = n"
    by simp
  have "case snd (decode_into (if manual_pooling then Manual_Pooling else Native_Pooling)
                    eng ctx batch emb (p * n_embd) s n_embd) of
          Inl f \<Rightarrow> True | Inr e \<Rightarrow> length e = n"
    using a by (rule decode_into_sized)
  with a show ?thesis
    unfolding st break_into_batches_body_def
    by (auto simp: Let_def split: prod.splits sum.splits)
qed

lemma final_batch_sized:
  assumes "emb_sized n st"
  shows "emb_sized n (final_batch eng n_embd st)"
proof -
  obtain ctx batch p s emb calls where st: "st = (ctx, batch, p, s, emb, calls)"
    by (cases st) auto
  from assms st have a: "case emb of Inl f \<Rightarrow> True | Inr e \<Rightarrow> length e = n"
    by simp
  have "case snd (decode_into Native_Pooling eng ctx batch emb (p * n_embd) s n_embd) of
          Inl f \<Rightarrow> True | Inr e \<Rightarrow> length e = n"
    using a by (rule decode_into_sized)
  then show ?thesis
    unfolding st by (auto simp: Let_def split: prod.splits)
qed

lemma fold_sized:
  "emb_sized n st \<Longrightarrow>
   emb_sized n (fold (break_into_batches_body eng manual_pooling n_batch n_embd) inputs st)"
  by (induction inputs arbitrary: st) (simp_all add: body_sized)

lemma break_into_batches_sized:
  "emb_of (break_into_batches eng manual_pooling n_batch ctx inputs) = Inr emb \<Longrightarrow>
   length emb = length inputs * llama_n_embd eng"
proof -
  assume a: "emb_of (break_into_batches eng manual_pooling n_batch ctx inputs) = Inr emb"
  let ?n = "length inputs * llama_n_embd eng"
  have "emb_sized ?n (break_into_batches eng manual_pooling n_batch ctx inputs)"
    unfolding break_into_batches_def Let_def
    by (intro final_batch_sized fold_sized) simp
  with a show ?thesis
    by (cases "break_into_batches eng manual_pooling n_batch ctx inputs") auto
qed


lemma tokenize_prompts_length:
  "tokenize_prompts tok n prompts = Some inputs \<Longrightarrow> length inputs = length prompts"
  by (induction prompts arbitrary: inputs) (auto simp: Let_def split: if_splits option.splits)

lemma region_eq_map_nth:
  "j * n + n \<le> length emb \<Longrightarrow> map (\<lambda>i. emb ! (j * n + i)) [0..<n] = region emb 0 n j"
  by (rule nth_equalityI) (simp_all add: region_def)

lemma preview_regions:
  assumes "length emb = n_prompts * n_embd"
  shows "map (\<lambda>j. map (\<lambda>i. emb ! (j * n_embd + i)) [0..<n_embd]) [0..<min 3 n_prompts]
         = map (region emb 0 n_embd) [0..<min 3 n_prompts]"
proof (rule map_cong [OF refl])
  fix j assume "j \<in> set [0..<min 3 n_prompts]"
  then have "Suc j \<le> n_prompts" by simp
  then have "Suc j * n_embd \<le> n_prompts * n_embd" by (rule mult_le_mono1)
  then have "j * n_embd + n_embd \<le> length emb" using assms by simp
  then show "map (\<lambda>i. emb ! (j * n_embd + i)) [0..<n_embd] = region emb 0 n_embd j"
    by (rule region_eq_map_nth)
qed

lemma output_sink_eq:
  "length emb = n_prompts * n_embd \<Longrightarrow>
   output_sink logits_file fopen_ok emb n_prompts n_embd
     = (if logits_file \<noteq> [] then ((if fopen_ok then Some emb else None), None)
        else (None, Some (map (region emb 0 n_embd) [0..<min 3 n_prompts])))"
  by (simp add: output_sink_def preview_regions)

lemma main_completed:
  assumes "status (main eng ctx prompt n_batch n_ctx manual_pooling logits_file fopen_ok) = Return 0"
  shows "\<exists>inputs emb.
           tokenize_prompts (llama_tokenize eng) n_batch (split_lines prompt) = Some inputs
           \<and> emb_of (break_into_batches eng manual_pooling n_batch ctx
                       (map (add_sep (llama_token_sep eng)) inputs)) = Inr emb
           \<and> length emb = length (split_lines prompt) * llama_n_embd eng
           \<and> embeddings (main eng ctx prompt n_batch n_ctx manual_pooling logits_file fopen_ok) = emb
           \<and> (file_out (main eng ctx prompt n_batch n_ctx manual_pooling logits_file fopen_ok),
               preview (main eng ctx prompt n_batch n_ctx manual_pooling logits_file fopen_ok))
              = output_sink logits_file fopen_ok emb (length (split_lines prompt)) (llama_n_embd eng)"
proof -
  from assms have nb: "\<not> n_batch < n_ctx"
    by (auto simp: main_def Let_def split: if_splits)
  from assms nb obtain inputs where
    tok: "tokenize_prompts (llama_tokenize eng) n_batch (split_lines prompt) = Some inputs"
    by (auto simp: main_def Let_def split: option.splits)
  let ?st = "break_into_batches eng manual_pooling n_batch ctx
               (map (add_sep (llama_token_sep eng)) inputs)"
  from assms nb tok obtain emb where emb: "emb_of ?st = Inr emb"
    by (auto simp: main_def Let_def split: sum.splits)
  have len: "length emb = length (split_lines prompt) * llama_n_embd eng"
    using break_into_batches_sized [OF emb] tokenize_prompts_length [OF tok] by simp
  show ?thesis
    using nb tok emb len by (auto simp: main_def Let_def split: prod.splits)
qed

lemma main_fopen_independent:
  "status (main eng ctx prompt n_batch n_ctx manual_pooling logits_file (\<not> fopen_ok))
     = status (main eng ctx prompt n_batch n_ctx manual_pooling logits_file fopen_ok)
   \<and> embeddings (main eng ctx prompt n_batch n_ctx manual_pooling logits_file (\<not> fopen_ok))
     = embeddings (main eng ctx prompt n_batch n_ctx manual_pooling logits_file fopen_ok)
   \<and> decode_calls (main eng ctx prompt n_batch n_ctx manual_pooling logits_file (\<not> fopen_ok))
     = decode_calls (main eng ctx prompt n_batch n_ctx manual_pooling logits_file fopen_ok)"
  by (simp add: main_def Let_def split: option.splits sum.splits prod.splits)

text \<open>
  C8. The claim: in every run exactly one of the two output behaviours occurs, the file
  with a destination path, the preview without. A run that ends at the length check of
  line 172 reaches neither: for one prompt of nine tokens and \<open>n_batch = 8\<close>, \<^verbatim>\<open>main\<close>
  returns 1, nothing is printed without a path (one vector is due), and with a path
  nothing is written to a file that can be opened.
\<close>

theorem output_for_every_run_counterexample:
  "status (main token_engine [] ''abcdefghi'' 8 8 False [] True) = Return 1
   \<and> min 3 (length (split_lines ''abcdefghi'')) = 1
   \<and> preview (main token_engine [] ''abcdefghi'' 8 8 False [] True) = None
   \<and> file_out (main token_engine [] ''abcdefghi'' 8 8 False ''out.bin'' True) = None"
  by (simp add: main_def split_lines_def token_engine_def)

text \<open>
  C8, as amended. A run that reaches the output (\<^verbatim>\<open>main\<close> returns 0: the assertion of
  line 166 held, no prompt had more than \<open>n_batch\<close> tokens, and every operation had a
  defined result) has an embedding buffer of \<open>n_prompts * n_embd\<close> floats. With a
  destination path nothing is printed, and the file receives the whole buffer (sequence
  after sequence) if it can be opened and nothing if it cannot; with no path no file is
  written and the first \<open>min 3 n_prompts\<close> regions of the buffer are printed. Whether the
  file can be opened changes neither the status of the run, nor its buffer, nor its decode
  calls. (The bytes of a float in the file are not modelled.)
\<close>

theorem output_sink_one_behaviour:
  "let r = main eng ctx prompt n_batch n_ctx manual_pooling logits_file fopen_ok;
       r' = main eng ctx prompt n_batch n_ctx manual_pooling logits_file (\<not> fopen_ok);
       n_prompts = length (split_lines prompt);
       n_embd = llama_n_embd eng
   in (status r = Return 0 \<longrightarrow>
         length (embeddings r) = n_prompts * n_embd
         \<and> (if logits_file \<noteq> []
            then preview r = None
               \<and> file_out r = (if fopen_ok then Some (embeddings r) else None)
            else file_out r = None
               \<and> preview r = Some (map (region (embeddings r) 0 n_embd) [0..<min 3 n_prompts])))
      \<and> status r' = status r \<and> embeddings r' = embeddings r \<and> decode_calls r' = decode_calls r"
proof -
  let ?r = "main eng ctx prompt n_batch n_ctx manual_pooling logits_file fopen_ok"
  let ?n = "length (split_lines prompt)"
  have "length (embeddings ?r) = ?n * llama_n_embd eng
         \<and> (if logits_file \<noteq> []
            then preview ?r = None
               \<and> file_out ?r = (if fopen_ok then Some (embeddings ?r) else None)
            else file_out ?r = None
               \<and> preview ?r = Some (map (region (embeddings ?r) 0 (llama_n_embd eng)) [0..<min 3 ?n]))"
    if ok: "status ?r = Return 0"
  proof -
    from main_completed [OF ok] obtain emb where
      len: "length emb = ?n * llama_n_embd eng"
      and e: "embeddings ?r = emb"
      and sink: "(file_out ?r, preview ?r) = output_sink logits_file fopen_ok emb ?n (llama_n_embd eng)"
      by blast
    from len e have len': "length (embeddings ?r) = ?n * llama_n_embd eng"
      by simp
    from sink e have fo: "file_out ?r
                          = fst (output_sink logits_file fopen_ok (embeddings ?r) ?n (llama_n_embd eng))"
      and pr: "preview ?r
                 = snd (output_sink logits_file fopen_ok (embeddings ?r) ?n (llama_n_embd eng))"
      by (simp_all add: prod_eq_iff)
    show ?thesis
      unfolding fo pr output_sink_eq [OF len'] using len' by simp
  qed
  then show ?thesis
    unfolding Let_def
    using main_fopen_independent [of eng ctx prompt n_batch n_ctx manual_pooling logits_file fopen_ok]
    by blast
qed

theorem output_sink_one_behaviour_witness:
  "status (main token_engine [] (''ab.'' @ [CHR 0x0A] @ ''cd'') 8 8 False ''out.bin'' False) = Return 0
   \<and> embeddings (main token_engine [] (''ab.'' @ [CHR 0x0A] @ ''cd'') 8 8 False ''out.bin'' False)
       = [1, 0, 1, 0]
   \<and> file_out (main token_engine [] (''ab.'' @ [CHR 0x0A] @ ''cd'') 8 8 False ''out.bin'' False) = None
   \<and> preview (main token_engine [] (''ab.'' @ [CHR 0x0A] @ ''cd'') 8 8 False ''out.bin'' False) = None
   \<and> file_out (main token_engine [] (''ab.'' @ [CHR 0x0A] @ ''cd'') 8 8 False ''out.bin'' True)
       = Some [1, 0, 1, 0]
   \<and> preview (main token_engine [] (''ab.'' @ [CHR 0x0A] @ ''cd'') 8 8 False [] True)
       = Some [[1, 0], [1, 0]]"
  using output_sink_one_behaviour
    [of token_engine "[]" "''ab.'' @ [CHR 0x0A] @ ''cd''" 8 8 False "''out.bin''" False]
  by (simp add: main_def split_lines_def token_engine_def add_sep_def break_into_batches_def
        break_into_batches_body_def llama_batch_clear_def batch_add_seq_eq seq_slots_def
        batch_decode_def batch_decode_body_def fetch_native_def llama_embd_normalize_def
        store_def output_sink_def upt_rec Let_def)

end
